theory Spec2Isabelle
  imports Main
begin

section \<open>Values, identities and user code\<close>

text \<open>
  The reactive core of \<^verbatim>\<open>src/reactive/signals.js\<close>: \<^verbatim>\<open>createSignal\<close>,
  \<^verbatim>\<open>createEffect\<close>, \<^verbatim>\<open>createComputed\<close> and \<^verbatim>\<open>$state\<close>, with the two
  module-level tables \<^verbatim>\<open>EFFECT_STACK\<close> and \<^verbatim>\<open>EFFECT_DEPS\<close>.

  JavaScript values. Numbers are integers here (no \<^verbatim>\<open>NaN\<close>, for which \<^verbatim>\<open>===\<close> is not
  reflexive); a function value is the identity of a user function, so that \<^verbatim>\<open>===\<close> on two
  values is equality of the HOL values.
\<close>

datatype val =
    VUndef
  | VNull
  | VBool bool
  | VNum int
  | VStr string
  | VSym nat
  | VFun nat

fun is_function :: "val \<Rightarrow> bool" where
  "is_function (VFun f) = True"
| "is_function v = False"

text \<open>
  A runner is the closure \<^verbatim>\<open>runner\<close> of one effect or the closure \<^verbatim>\<open>recompute\<close> of one
  computed. A subscriber set \<^verbatim>\<open>__subs\<close> holds runners (put there by \<^verbatim>\<open>_trackDependency\<close>)
  and plain user functions (put there by \<^verbatim>\<open>subscribe\<close>). A signal key is the \<^verbatim>\<open>get\<close>
  closure of a signal or a property-signal object \<^verbatim>\<open>{ __subs }\<close> made by
  \<^verbatim>\<open>_ensurePropSignalFor\<close>; objects are named by the number of their allocation.
\<close>

datatype runner = Eff nat | Comp nat

datatype subscriber = RunnerFn runner | UserFn nat

datatype signalKey = SigKey nat | PropSig nat

datatype pkey = PStr string | PSym nat

fun key_val :: "pkey \<Rightarrow> val" where
  "key_val (PStr s) = VStr s"
| "key_val (PSym n) = VSym n"

text \<open>What the \<^verbatim>\<open>get\<close> trap of a state proxy hands back: a data value, or one of the two
  closures it builds for the reserved names.\<close>

datatype getres = Data val | SubscribeFn nat | InspectFn nat

text \<open>
  User code is a tree of calls into the library: each node is one call, and the rest of the
  function depends on what the call returned. \<open>Log\<close> stands for a side effect of the
  user function that the library does not see (\<^verbatim>\<open>log.push(v)\<close>, \<^verbatim>\<open>calls++\<close>).
  A user function is named by a number; a program gives every user function its body,
  as a function of the arguments it is called with.

  Inside a user function the model has: reading and setting a signal (also with an updater
  function), reading a computed, reading, writing and deleting a property of a state proxy,
  \<^verbatim>\<open>inspect()\<close>, calling the disposer of an effect, throwing, and returning a value or a
  function. Creating signals, effects, computeds and proxies, and \<^verbatim>\<open>subscribe\<close> with the
  function it returns, are done between user functions (the constructors below). A user
  function does not catch what the library throws at it, and the closures the library
  creates are not values that it stores.
\<close>

datatype prog =
    Return val
  | Throw val
  | Log val prog
  | SigGet nat "val \<Rightarrow> prog"
  | SigSet nat val "val \<Rightarrow> prog"
  | CompGet nat "val \<Rightarrow> prog"
  | PropGet nat pkey "getres \<Rightarrow> prog"
  | PropSet nat pkey val prog
  | PropDel nat pkey prog
  | Inspect nat "(pkey \<Rightarrow> val option) \<Rightarrow> prog"
  | Dispose nat prog

type_synonym program = "nat \<Rightarrow> val list \<Rightarrow> prog"

text \<open>
  What leaves the library: \<^verbatim>\<open>console.error(err)\<close>, an error rethrown from
  \<^verbatim>\<open>setTimeout\<close>, and the user's own log. Two more events are bookkeeping of the model, so
  that claims about "how often" and "in which run" can be stated: \<open>Enter f args\<close> is
  written each time the library calls user function \<open>f\<close>, and \<open>Tracked r k\<close> each time
  \<^verbatim>\<open>_trackDependency(r, k)\<close> runs.
\<close>

datatype event =
    ConsoleError "val list"
  | AsyncThrow val
  | Logged val
  | Enter nat "val list"
  | Tracked runner signalKey

text \<open>Whether an event is a \<open>Tracked\<close> one.\<close>

fun is_tracked :: "event \<Rightarrow> bool" where
  "is_tracked (Tracked r k) = True"
| "is_tracked ev = False"

section \<open>The state of the module\<close>

text \<open>
  The two module tables, the subscriber set of every signal key, the closure variables of
  every signal, effect, computed and proxy, the counters that name new objects, and the
  events so far. The last field is bookkeeping like the events: \<open>cleared w r\<close> is the
  number of events that had been written when the subscriptions of runner \<open>r\<close> were
  last cleared.
\<close>

record world =
  EFFECT_STACK :: "runner list"
  EFFECT_DEPS :: "runner \<Rightarrow> signalKey list option"
  subs :: "signalKey \<Rightarrow> subscriber list"
  sig_value :: "nat \<Rightarrow> val"
  eff_fn :: "nat \<Rightarrow> nat"
  eff_cleanup :: "nat \<Rightarrow> val"
  comp_fn :: "nat \<Rightarrow> nat"
  comp_cached :: "nat \<Rightarrow> val"
  comp_dirty :: "nat \<Rightarrow> bool"
  comp_cleanup :: "nat \<Rightarrow> val"
  target :: "nat \<Rightarrow> pkey \<Rightarrow> val option"
  STATE_PROP_SIGNALS :: "nat \<Rightarrow> (pkey \<Rightarrow> nat option) option"
  globalSubs :: "nat \<Rightarrow> nat list"
  next_signal :: nat
  next_effect :: nat
  next_computed :: nat
  next_state :: nat
  next_propsig :: nat
  events :: "event list"
  cleared :: "runner \<Rightarrow> nat"

definition init :: world where
  "init = \<lparr> EFFECT_STACK = [], EFFECT_DEPS = (\<lambda>r. None), subs = (\<lambda>k. []),
     sig_value = (\<lambda>s. VUndef), eff_fn = (\<lambda>e. 0), eff_cleanup = (\<lambda>e. VNull),
     comp_fn = (\<lambda>c. 0), comp_cached = (\<lambda>c. VUndef), comp_dirty = (\<lambda>c. True),
     comp_cleanup = (\<lambda>c. VNull), target = (\<lambda>p k. None),
     STATE_PROP_SIGNALS = (\<lambda>p. None), globalSubs = (\<lambda>p. []),
     next_signal = 0, next_effect = 0, next_computed = 0, next_state = 0,
     next_propsig = 0, events = [], cleared = (\<lambda>r. 0) \<rparr>"

definition emit :: "event \<Rightarrow> world \<Rightarrow> world" where
  "emit e w = w\<lparr>events := events w @ [e]\<rparr>"

text \<open>\<^verbatim>\<open>Set.prototype.add\<close> on a set kept in insertion order.\<close>

definition set_add :: "'a \<Rightarrow> 'a list \<Rightarrow> 'a list" where
  "set_add x xs = (if x \<in> set xs then xs else xs @ [x])"

text \<open>\<^verbatim>\<open>EFFECT_STACK[EFFECT_STACK.length - 1]\<close>, \<^verbatim>\<open>undefined\<close> on the empty stack.\<close>

definition active :: "world \<Rightarrow> runner option" where
  "active w = (if EFFECT_STACK w = [] then None else Some (last (EFFECT_STACK w)))"

definition push :: "runner \<Rightarrow> world \<Rightarrow> world" where
  "push r w = w\<lparr>EFFECT_STACK := EFFECT_STACK w @ [r]\<rparr>"

definition pop :: "world \<Rightarrow> world" where
  "pop w = w\<lparr>EFFECT_STACK := butlast (EFFECT_STACK w)\<rparr>"

text \<open>\<^verbatim>\<open>_trackDependency(runner, signalKey)\<close>, lines 15-28.\<close>

definition trackDependency :: "runner \<Rightarrow> signalKey \<Rightarrow> world \<Rightarrow> world" where
  "trackDependency r k w =
     (let w1 = (if RunnerFn r \<in> set (subs w k) then w
                else w\<lparr>subs := (subs w)(k := subs w k @ [RunnerFn r])\<rparr>);
          deps = (case EFFECT_DEPS w1 r of None \<Rightarrow> [] | Some d \<Rightarrow> d)
      in emit (Tracked r k) (w1\<lparr>EFFECT_DEPS := (EFFECT_DEPS w1)(r \<mapsto> set_add k deps)\<rparr>))"

text \<open>The block that opens \<^verbatim>\<open>runner\<close>, \<^verbatim>\<open>recompute\<close> and the disposer: delete the runner
  from \<^verbatim>\<open>__subs\<close> of every recorded key, then \<^verbatim>\<open>EFFECT_DEPS.delete(runner)\<close>. The
  update of \<open>cleared\<close> is bookkeeping of the model: it records how many events had
  been written when the block last ran for the runner.\<close>

definition unsubscribe :: "runner \<Rightarrow> world \<Rightarrow> world" where
  "unsubscribe r w =
     (case EFFECT_DEPS w r of
        None \<Rightarrow> w
      | Some prevDeps \<Rightarrow>
          (fold (\<lambda>sigKey v. v\<lparr>subs := (subs v)(sigKey := removeAll (RunnerFn r) (subs v sigKey))\<rparr>)
             prevDeps w)
          \<lparr>EFFECT_DEPS := (EFFECT_DEPS w)(r := None)\<rparr>)
     \<lparr>cleared := (cleared w)(r := length (events w))\<rparr>"

text \<open>\<^verbatim>\<open>get\<close> of a signal, lines 38-44.\<close>

definition sig_get :: "nat \<Rightarrow> world \<Rightarrow> val \<times> world" where
  "sig_get s w =
     (case active w of
        None \<Rightarrow> (sig_value w s, w)
      | Some a \<Rightarrow> (sig_value w s, trackDependency a (SigKey s) w))"

text \<open>\<^verbatim>\<open>_ensurePropSignalFor(target, prop)\<close>, lines 194-206.\<close>

definition ensurePropSignalFor :: "nat \<Rightarrow> pkey \<Rightarrow> world \<Rightarrow> nat \<times> world" where
  "ensurePropSignalFor p prop w =
     (let m = (case STATE_PROP_SIGNALS w p of None \<Rightarrow> (\<lambda>k. None) | Some m \<Rightarrow> m)
      in case m prop of
           Some sig \<Rightarrow> (sig, w\<lparr>STATE_PROP_SIGNALS := (STATE_PROP_SIGNALS w)(p \<mapsto> m)\<rparr>)
         | None \<Rightarrow>
             (let sig = next_propsig w
              in (sig, w\<lparr>STATE_PROP_SIGNALS := (STATE_PROP_SIGNALS w)(p \<mapsto> m(prop \<mapsto> sig)),
                        subs := (subs w)(PropSig sig := []),
                        next_propsig := Suc sig\<rparr>)))"

text \<open>
  The record behind a proxy is the plain object \<^verbatim>\<open>Object.assign({}, initial)\<close>: besides
  its own properties it inherits those of \<^verbatim>\<open>Object.prototype\<close>, which \<^verbatim>\<open>target[prop]\<close>
  and \<^verbatim>\<open>prop in target\<close> see. These are function objects of the runtime
  (\<^verbatim>\<open>Object.prototype.toString\<close> and the others). Like every function value they are
  named by a number; the numbers from 1000 on are set aside for them, and what a call of
  one does is given by the program, as for every function. User code of this model does
  not change \<^verbatim>\<open>Object.prototype\<close>. The one inherited property that is not a function, the
  accessor \<^verbatim>\<open>__proto__\<close>, is not modelled: what is proved about a property key of a
  proxy is stated for the keys other than \<^verbatim>\<open>__proto__\<close>.
\<close>

definition Object_prototype_functions :: "(string \<times> nat) list" where
  "Object_prototype_functions =
     [(''constructor'', 1000), (''hasOwnProperty'', 1001), (''isPrototypeOf'', 1002),
      (''propertyIsEnumerable'', 1003), (''toLocaleString'', 1004), (''toString'', 1005),
      (''valueOf'', 1006), (''__defineGetter__'', 1007), (''__defineSetter__'', 1008),
      (''__lookupGetter__'', 1009), (''__lookupSetter__'', 1010)]"

definition Object_prototype :: "pkey \<Rightarrow> val option" where
  "Object_prototype prop =
     (case prop of
        PStr name \<Rightarrow> map_option VFun (map_of Object_prototype_functions name)
      | PSym n \<Rightarrow> None)"

text \<open>\<^verbatim>\<open>prop in target\<close>: an own property or an inherited one.\<close>

definition has_property :: "world \<Rightarrow> nat \<Rightarrow> pkey \<Rightarrow> bool" where
  "has_property w p prop =
     (case target w p prop of
        Some v \<Rightarrow> True
      | None \<Rightarrow> (case Object_prototype prop of Some v \<Rightarrow> True | None \<Rightarrow> False))"

text \<open>\<^verbatim>\<open>target[prop]\<close>: the own property, else the inherited one, else
  \<^verbatim>\<open>undefined\<close>.\<close>

definition target_get :: "world \<Rightarrow> nat \<Rightarrow> pkey \<Rightarrow> val" where
  "target_get w p prop =
     (case target w p prop of
        Some v \<Rightarrow> v
      | None \<Rightarrow> (case Object_prototype prop of Some v \<Rightarrow> v | None \<Rightarrow> VUndef))"

text \<open>The \<^verbatim>\<open>get\<close> trap, lines 218-232.\<close>

definition handler_get :: "nat \<Rightarrow> pkey \<Rightarrow> world \<Rightarrow> getres \<times> world" where
  "handler_get p prop w =
     (if prop = PStr ''__isState'' then (Data (VBool True), w)
      else if prop = PStr ''subscribe'' then (SubscribeFn p, w)
      else if prop = PStr ''inspect'' then (InspectFn p, w)
      else
        (let w1 = (case (active w, prop) of
                     (Some a, PStr name) \<Rightarrow>
                       (let (sig, v) = ensurePropSignalFor p prop w
                        in trackDependency a (PropSig sig) v)
                   | _ \<Rightarrow> w)
         in (Data (target_get w1 p prop), w1)))"

text \<open>The closure returned for \<^verbatim>\<open>inspect\<close>: \<^verbatim>\<open>Object.assign({}, target)\<close>.\<close>

definition inspect :: "nat \<Rightarrow> world \<Rightarrow> (pkey \<Rightarrow> val option)" where
  "inspect p w = target w p"

section \<open>The operations that call user code\<close>

text \<open>
  The library calls user functions (\<^verbatim>\<open>fn()\<close>, \<^verbatim>\<open>cleanup()\<close>, a subscriber, an updater); a
  user function may throw, and may call back into the library before it returns. Every
  operation below takes, as its first argument \<open>call\<close>, the way to call user function
  \<open>f\<close> with arguments \<open>args\<close> in a state: the answer is \<open>None\<close> when the call does
  not return, and otherwise how it ended (a returned value or a thrown one) and the state
  it left.
\<close>

datatype outcome = Normal val | Exn val

type_synonym result = "(outcome \<times> world) option"

type_synonym callfn = "nat \<Rightarrow> val list \<Rightarrow> world \<Rightarrow> result"

text \<open>\<^verbatim>\<open>if (typeof cleanup === 'function') cleanup();\<close>\<close>

definition call_if_function :: "callfn \<Rightarrow> val \<Rightarrow> world \<Rightarrow> result" where
  "call_if_function call cleanup w =
     (case cleanup of VFun c \<Rightarrow> call c [] w | _ \<Rightarrow> Some (Normal VUndef, w))"

text \<open>\<^verbatim>\<open>runner\<close> of \<^verbatim>\<open>createEffect\<close>, lines 86-110.\<close>

definition runner :: "callfn \<Rightarrow> nat \<Rightarrow> world \<Rightarrow> result" where
  "runner call e w =
     (let w1 = unsubscribe (Eff e) w
      in case call_if_function call (eff_cleanup w1 e) w1 of
           None \<Rightarrow> None
         | Some (r, w2) \<Rightarrow>
             (let w3 = (case r of Exn err \<Rightarrow> emit (ConsoleError [err]) w2 | Normal x \<Rightarrow> w2);
                  w4 = w3\<lparr>eff_cleanup := (eff_cleanup w3)(e := VNull)\<rparr>;
                  w5 = push (Eff e) w4
              in case call (eff_fn w5 e) [] w5 of
                   None \<Rightarrow> None
                 | Some (Normal maybeCleanup, w6) \<Rightarrow>
                     Some (Normal VUndef,
                       pop (if is_function maybeCleanup
                            then w6\<lparr>eff_cleanup := (eff_cleanup w6)(e := maybeCleanup)\<rparr>
                            else w6))
                 | Some (Exn err, w6) \<Rightarrow>
                     Some (Normal VUndef,
                       pop (emit (ConsoleError [VStr ''createEffect error'', err]) w6))))"

text \<open>The disposer returned by \<^verbatim>\<open>createEffect\<close>, lines 116-126.\<close>

definition dispose :: "callfn \<Rightarrow> nat \<Rightarrow> world \<Rightarrow> result" where
  "dispose call e w =
     (let w1 = unsubscribe (Eff e) w
      in case call_if_function call (eff_cleanup w1 e) w1 of
           None \<Rightarrow> None
         | Some (r, w2) \<Rightarrow>
             (let w3 = (case r of Exn err \<Rightarrow> emit (ConsoleError [err]) w2 | Normal x \<Rightarrow> w2)
              in Some (Normal VUndef, w3\<lparr>eff_cleanup := (eff_cleanup w3)(e := VNull)\<rparr>)))"

text \<open>\<^verbatim>\<open>recompute\<close> of \<^verbatim>\<open>createComputed\<close>, lines 141-168. An error of the cleanup is
  dropped (\<^verbatim>\<open>catch (_) {}\<close>); an error of \<^verbatim>\<open>fn\<close> skips \<^verbatim>\<open>dirty = false\<close>.\<close>

definition recompute :: "callfn \<Rightarrow> nat \<Rightarrow> world \<Rightarrow> result" where
  "recompute call c w =
     (let w1 = unsubscribe (Comp c) w
      in case call_if_function call (comp_cleanup w1 c) w1 of
           None \<Rightarrow> None
         | Some (r, w2) \<Rightarrow>
             (let w4 = w2\<lparr>comp_cleanup := (comp_cleanup w2)(c := VNull)\<rparr>;
                  w5 = push (Comp c) w4
              in case call (comp_fn w5 c) [] w5 of
                   None \<Rightarrow> None
                 | Some (Normal result, w6) \<Rightarrow>
                     (let w7 = (if is_function result
                                then w6\<lparr>comp_cleanup := (comp_cleanup w6)(c := result)\<rparr>
                                else w6\<lparr>comp_cached := (comp_cached w6)(c := result)\<rparr>)
                      in Some (Normal VUndef, pop (w7\<lparr>comp_dirty := (comp_dirty w7)(c := False)\<rparr>)))
                 | Some (Exn err, w6) \<Rightarrow>
                     Some (Normal VUndef,
                       pop (emit (ConsoleError [VStr ''createComputed error'', err]) w6))))"

text \<open>The getter returned by \<^verbatim>\<open>createComputed\<close>, lines 174-177.\<close>

definition getter :: "callfn \<Rightarrow> nat \<Rightarrow> world \<Rightarrow> result" where
  "getter call c w =
     (if comp_dirty w c
      then (case recompute call c w of
              None \<Rightarrow> None
            | Some (r, w1) \<Rightarrow> Some (Normal (comp_cached w1 c), w1))
      else Some (Normal (comp_cached w c), w))"

text \<open>\<^verbatim>\<open>fn()\<close> for a member \<^verbatim>\<open>fn\<close> of a subscriber set.\<close>

fun invoke :: "callfn \<Rightarrow> subscriber \<Rightarrow> world \<Rightarrow> result" where
  "invoke call (RunnerFn (Eff e)) w = runner call e w"
| "invoke call (RunnerFn (Comp c)) w = recompute call c w"
| "invoke call (UserFn f) w = call f [] w"

text \<open>The user function that a member of a subscriber set runs: \<^verbatim>\<open>fn\<close> of the effect or
  of the computed behind a runner, or the plain function itself.\<close>

fun fn_of :: "world \<Rightarrow> subscriber \<Rightarrow> nat" where
  "fn_of w (RunnerFn (Eff e)) = eff_fn w e"
| "fn_of w (RunnerFn (Comp c)) = comp_fn w c"
| "fn_of w (UserFn f) = f"

text \<open>\<^verbatim>\<open>arr.forEach((fn) => { try { fn(); } catch (err) { setTimeout(() => { throw err; }); } })\<close>
  over the copy \<^verbatim>\<open>arr\<close> of a subscriber set (lines 59-62, 244-246, 266-268).\<close>

fun notify :: "callfn \<Rightarrow> subscriber list \<Rightarrow> world \<Rightarrow> result" where
  "notify call [] w = Some (Normal VUndef, w)"
| "notify call (fn # arr) w =
     (case invoke call fn w of
        None \<Rightarrow> None
      | Some (Normal r, w1) \<Rightarrow> notify call arr w1
      | Some (Exn err, w1) \<Rightarrow> notify call arr (emit (AsyncThrow err) w1))"

text \<open>\<^verbatim>\<open>set(newVal)\<close> of a signal, lines 49-64.\<close>

definition sig_set :: "callfn \<Rightarrow> nat \<Rightarrow> val \<Rightarrow> world \<Rightarrow> result" where
  "sig_set call s newVal w =
     (let old = sig_value w s
      in case (case newVal of
                 VFun f \<Rightarrow> call f [sig_value w s] w
               | _ \<Rightarrow> Some (Normal newVal, w)) of
           None \<Rightarrow> None
         | Some (Exn err, w1) \<Rightarrow> Some (Exn err, w1)
         | Some (Normal v, w1) \<Rightarrow>
             (let w2 = w1\<lparr>sig_value := (sig_value w1)(s := v)\<rparr>
              in if old = v then Some (Normal v, w2)
                 else (case notify call (subs w2 (SigKey s)) w2 of
                         None \<Rightarrow> None
                       | Some (r, w3) \<Rightarrow> Some (Normal (sig_value w3 s), w3))))"

text \<open>\<^verbatim>\<open>notifyGlobal(key, oldVal, newVal)\<close>, lines 211-215. User code of this model
  does not change \<^verbatim>\<open>globalSubs\<close>, so the set walked by \<^verbatim>\<open>forEach\<close> is the one read at
  the start.\<close>

fun notifyGlobal :: "callfn \<Rightarrow> nat list \<Rightarrow> val list \<Rightarrow> world \<Rightarrow> result" where
  "notifyGlobal call [] args w = Some (Normal VUndef, w)"
| "notifyGlobal call (fn # fns) args w =
     (case call fn args w of
        None \<Rightarrow> None
      | Some (Normal r, w1) \<Rightarrow> notifyGlobal call fns args w1
      | Some (Exn err, w1) \<Rightarrow> notifyGlobal call fns args (emit (ConsoleError [err]) w1))"

text \<open>\<^verbatim>\<open>sig.__subs\<close> of the property signal of \<open>prop\<close>, when
  \<^verbatim>\<open>STATE_PROP_SIGNALS.get(target)\<close> and \<^verbatim>\<open>map.get(prop)\<close> both exist (lines 240-243).\<close>

definition prop_subs :: "world \<Rightarrow> nat \<Rightarrow> pkey \<Rightarrow> subscriber list" where
  "prop_subs w p prop =
     (case STATE_PROP_SIGNALS w p of
        None \<Rightarrow> []
      | Some m \<Rightarrow> (case m prop of None \<Rightarrow> [] | Some sig \<Rightarrow> subs w (PropSig sig)))"

text \<open>The \<^verbatim>\<open>set\<close> trap, lines 234-253.\<close>

definition handler_set :: "callfn \<Rightarrow> nat \<Rightarrow> pkey \<Rightarrow> val \<Rightarrow> world \<Rightarrow> result" where
  "handler_set call p prop v w =
     (let old = target_get w p prop
      in if old = v
         then Some (Normal (VBool True), w\<lparr>target := (target w)(p := (target w p)(prop \<mapsto> v))\<rparr>)
         else
           (let w1 = w\<lparr>target := (target w)(p := (target w p)(prop \<mapsto> v))\<rparr>
            in case notify call (prop_subs w1 p prop) w1 of
                 None \<Rightarrow> None
               | Some (r, w2) \<Rightarrow>
                   (case notifyGlobal call (globalSubs w2 p) [key_val prop, old, v] w2 of
                      None \<Rightarrow> None
                    | Some (r', w3) \<Rightarrow> Some (Normal (VBool True), w3))))"

text \<open>The \<^verbatim>\<open>deleteProperty\<close> trap, lines 255-277. \<^verbatim>\<open>Reflect.deleteProperty\<close> removes an
  own property only; \<^verbatim>\<open>existed\<close> is \<^verbatim>\<open>prop in target\<close>, read before the removal.\<close>

definition handler_deleteProperty :: "callfn \<Rightarrow> nat \<Rightarrow> pkey \<Rightarrow> world \<Rightarrow> result" where
  "handler_deleteProperty call p prop w =
     (let old = target_get w p prop;
          existed = has_property w p prop;
          w1 = w\<lparr>target := (target w)(p := (target w p)(prop := None))\<rparr>
      in if existed
         then
           (case notify call (prop_subs w1 p prop) w1 of
              None \<Rightarrow> None
            | Some (r, w2) \<Rightarrow>
                (let w3 = w2\<lparr>STATE_PROP_SIGNALS := (STATE_PROP_SIGNALS w2)
                             (p := map_option (\<lambda>m. m(prop := None)) (STATE_PROP_SIGNALS w2 p))\<rparr>
                 in case notifyGlobal call (globalSubs w3 p) [key_val prop, old, VUndef] w3 of
                      None \<Rightarrow> None
                    | Some (r', w4) \<Rightarrow> Some (Normal (VBool True), w4)))
         else Some (Normal (VBool True), w1))"

section \<open>Running user code\<close>

text \<open>
  A user function can only name a signal, effect, computed or proxy that exists: a name
  used before its \<^verbatim>\<open>create...\<close> call has returned throws, as a variable read before its
  initialisation does.
\<close>

definition ReferenceError :: val where
  "ReferenceError = VStr ''ReferenceError''"

primrec run :: "callfn \<Rightarrow> prog \<Rightarrow> world \<Rightarrow> result" where
  "run call (Return v) w = Some (Normal v, w)"
| "run call (Throw v) w = Some (Exn v, w)"
| "run call (Log v q) w = run call q (emit (Logged v) w)"
| "run call (SigGet s k) w =
     (if s < next_signal w
      then (case sig_get s w of (v, w1) \<Rightarrow> run call (k v) w1)
      else Some (Exn ReferenceError, w))"
| "run call (SigSet s v k) w =
     (if s < next_signal w
      then (case sig_set call s v w of
              None \<Rightarrow> None
            | Some (Exn err, w1) \<Rightarrow> Some (Exn err, w1)
            | Some (Normal r, w1) \<Rightarrow> run call (k r) w1)
      else Some (Exn ReferenceError, w))"
| "run call (CompGet c k) w =
     (if c < next_computed w
      then (case getter call c w of
              None \<Rightarrow> None
            | Some (Exn err, w1) \<Rightarrow> Some (Exn err, w1)
            | Some (Normal r, w1) \<Rightarrow> run call (k r) w1)
      else Some (Exn ReferenceError, w))"
| "run call (PropGet p prop k) w =
     (if p < next_state w
      then (case handler_get p prop w of (r, w1) \<Rightarrow> run call (k r) w1)
      else Some (Exn ReferenceError, w))"
| "run call (PropSet p prop v q) w =
     (if p < next_state w
      then (case handler_set call p prop v w of
              None \<Rightarrow> None
            | Some (Exn err, w1) \<Rightarrow> Some (Exn err, w1)
            | Some (Normal r, w1) \<Rightarrow> run call q w1)
      else Some (Exn ReferenceError, w))"
| "run call (PropDel p prop q) w =
     (if p < next_state w
      then (case handler_deleteProperty call p prop w of
              None \<Rightarrow> None
            | Some (Exn err, w1) \<Rightarrow> Some (Exn err, w1)
            | Some (Normal r, w1) \<Rightarrow> run call q w1)
      else Some (Exn ReferenceError, w))"
| "run call (Inspect p k) w =
     (if p < next_state w
      then run call (k (inspect p w)) w
      else Some (Exn ReferenceError, w))"
| "run call (Dispose e q) w =
     (if e < next_effect w
      then (case dispose call e w of
              None \<Rightarrow> None
            | Some (Exn err, w1) \<Rightarrow> Some (Exn err, w1)
            | Some (Normal r, w1) \<Rightarrow> run call q w1)
      else Some (Exn ReferenceError, w))"

text \<open>
  Calling user function \<open>f\<close> of program \<open>\<Pi>\<close>, with at most \<open>n\<close> user calls nested
  inside one another (an effect that writes a signal it reads may re-enter itself without
  end; then every bound is reached and the answer is \<open>None\<close>).
\<close>

primrec user :: "program \<Rightarrow> nat \<Rightarrow> callfn" where
  "user \<Pi> 0 = (\<lambda>f args w. None)"
| "user \<Pi> (Suc n) = (\<lambda>f args w. run (user \<Pi> n) (\<Pi> f args) (emit (Enter f args) w))"

text \<open>One way of calling user code extends another when it returns whatever the other
  returns.\<close>

definition extends :: "callfn \<Rightarrow> callfn \<Rightarrow> bool" where
  "extends call call' \<longleftrightarrow> (\<forall>f args w x. call f args w = Some x \<longrightarrow> call' f args w = Some x)"

section \<open>The four constructors\<close>

text \<open>\<^verbatim>\<open>createSignal(initial)\<close>, lines 34-73, with \<^verbatim>\<open>subscribe(fn)\<close> and the function it
  returns.\<close>

definition createSignal :: "val \<Rightarrow> world \<Rightarrow> nat \<times> world" where
  "createSignal initial w =
     (let s = next_signal w
      in (s, w\<lparr>sig_value := (sig_value w)(s := initial),
               subs := (subs w)(SigKey s := []),
               next_signal := Suc s\<rparr>))"

definition subscribe :: "nat \<Rightarrow> val \<Rightarrow> world \<Rightarrow> world" where
  "subscribe s fn w =
     (case fn of
        VFun f \<Rightarrow> w\<lparr>subs := (subs w)(SigKey s := set_add (UserFn f) (subs w (SigKey s)))\<rparr>
      | _ \<Rightarrow> w)"

definition unsubscribe_fn :: "nat \<Rightarrow> val \<Rightarrow> world \<Rightarrow> world" where
  "unsubscribe_fn s fn w =
     (case fn of
        VFun f \<Rightarrow> w\<lparr>subs := (subs w)(SigKey s := removeAll (UserFn f) (subs w (SigKey s)))\<rparr>
      | _ \<Rightarrow> w)"

text \<open>\<^verbatim>\<open>createEffect(fn)\<close>, lines 81-127: the closure variables of a new effect
  (\<^verbatim>\<open>let cleanup = null\<close>), then the initial run. The value returned names the effect,
  whose disposer is \<open>dispose\<close>.\<close>

definition new_effect :: "nat \<Rightarrow> world \<Rightarrow> nat \<times> world" where
  "new_effect f w =
     (let e = next_effect w
      in (e, w\<lparr>eff_fn := (eff_fn w)(e := f),
               eff_cleanup := (eff_cleanup w)(e := VNull),
               next_effect := Suc e\<rparr>))"

definition createEffect :: "callfn \<Rightarrow> val \<Rightarrow> world \<Rightarrow> result" where
  "createEffect call fn w =
     (case fn of
        VFun f \<Rightarrow>
          (case new_effect f w of
             (e, w0) \<Rightarrow>
               (case runner call e w0 of
                  None \<Rightarrow> None
                | Some (r, w1) \<Rightarrow> Some (Normal (VNum (int e)), w1)))
      | _ \<Rightarrow> Some (Exn (VStr ''createEffect: fn must be a function''), w))"

text \<open>\<^verbatim>\<open>createComputed(fn)\<close>, lines 134-178: the closure variables of a new computed
  (\<^verbatim>\<open>let cached; let dirty = true; let cleanup = null\<close>), then the initial compute. The
  value returned names the computed, whose getter is \<open>getter\<close>.\<close>

definition new_computed :: "nat \<Rightarrow> world \<Rightarrow> nat \<times> world" where
  "new_computed f w =
     (let c = next_computed w
      in (c, w\<lparr>comp_fn := (comp_fn w)(c := f),
               comp_cached := (comp_cached w)(c := VUndef),
               comp_dirty := (comp_dirty w)(c := True),
               comp_cleanup := (comp_cleanup w)(c := VNull),
               next_computed := Suc c\<rparr>))"

definition createComputed :: "callfn \<Rightarrow> val \<Rightarrow> world \<Rightarrow> result" where
  "createComputed call fn w =
     (case fn of
        VFun f \<Rightarrow>
          (case new_computed f w of
             (c, w0) \<Rightarrow>
               (case recompute call c w0 of
                  None \<Rightarrow> None
                | Some (r, w1) \<Rightarrow> Some (Normal (VNum (int c)), w1)))
      | _ \<Rightarrow> Some (Exn (VStr ''createComputed: fn must be a function''), w))"

text \<open>\<^verbatim>\<open>$state(initial)\<close>, lines 208-281, and the closure the \<^verbatim>\<open>get\<close> trap returns for
  \<^verbatim>\<open>subscribe\<close>.\<close>

definition state :: "(pkey \<Rightarrow> val option) \<Rightarrow> world \<Rightarrow> nat \<times> world" where
  "state initial w =
     (let p = next_state w
      in (p, w\<lparr>target := (target w)(p := initial),
               STATE_PROP_SIGNALS := (STATE_PROP_SIGNALS w)(p := None),
               globalSubs := (globalSubs w)(p := []),
               next_state := Suc p\<rparr>))"

definition state_subscribe :: "nat \<Rightarrow> nat \<Rightarrow> world \<Rightarrow> world" where
  "state_subscribe p f w = w\<lparr>globalSubs := (globalSubs w)(p := set_add f (globalSubs w p))\<rparr>"

section \<open>Relations between the states before and after an operation\<close>

text \<open>The dependency set of a runner: \<^verbatim>\<open>EFFECT_DEPS.get(runner)\<close>, empty when there is
  none.\<close>

definition deps_of :: "world \<Rightarrow> runner \<Rightarrow> signalKey list" where
  "deps_of w r = (case EFFECT_DEPS w r of None \<Rightarrow> [] | Some d \<Rightarrow> d)"

text \<open>
  A relation \<open>R\<close> between the state before and the state after is \<open>steady\<close> when every
  step the library takes by itself is in it (an event \<open>Tracked\<close> is written by
  \<^verbatim>\<open>_trackDependency\<close> only); user code \<open>obeys\<close> it when every call that
  returns is in it. The operations of the library then stay inside every steady relation
  that the user code obeys, and so does the user code of every program, since all it can do
  is call the library.
\<close>

definition steady :: "(world \<Rightarrow> world \<Rightarrow> bool) \<Rightarrow> bool" where
  "steady R \<longleftrightarrow>
     (\<forall>w. R w w) \<and> (\<forall>a b c. R a b \<longrightarrow> R b c \<longrightarrow> R a c) \<and>
     (\<forall>w e. \<not> is_tracked e \<longrightarrow> R w (emit e w)) \<and>
     (\<forall>w r. R w (unsubscribe r w)) \<and>
     (\<forall>w s. s < next_signal w \<longrightarrow> R w (snd (sig_get s w))) \<and>
     (\<forall>w p prop. R w (snd (handler_get p prop w))) \<and>
     (\<forall>w f. R w (w\<lparr>sig_value := f\<rparr>)) \<and>
     (\<forall>w f. R w (w\<lparr>eff_cleanup := f\<rparr>)) \<and>
     (\<forall>w f. R w (w\<lparr>comp_cleanup := f\<rparr>)) \<and>
     (\<forall>w f. R w (w\<lparr>comp_cached := f\<rparr>)) \<and>
     (\<forall>w f. R w (w\<lparr>comp_dirty := f\<rparr>)) \<and>
     (\<forall>w f. R w (w\<lparr>target := f\<rparr>)) \<and>
     (\<forall>w p prop. R w (w\<lparr>STATE_PROP_SIGNALS := (STATE_PROP_SIGNALS w)
          (p := map_option (\<lambda>m. m(prop := None)) (STATE_PROP_SIGNALS w p))\<rparr>)) \<and>
     (\<forall>w r w'. R (push r w) w' \<longrightarrow> R w (pop w'))"

definition obeys :: "(world \<Rightarrow> world \<Rightarrow> bool) \<Rightarrow> callfn \<Rightarrow> bool" where
  "obeys R call \<longleftrightarrow> (\<forall>f args w r w'. call f args w = Some (r, w') \<longrightarrow> R w w')"

text \<open>What no operation changes: the stack is as before on return, and events are only
  added.\<close>

definition frame :: "world \<Rightarrow> world \<Rightarrow> bool" where
  "frame w w' \<longleftrightarrow>
     EFFECT_STACK w' = EFFECT_STACK w \<and> globalSubs w' = globalSubs w \<and>
     eff_fn w' = eff_fn w \<and> comp_fn w' = comp_fn w \<and>
     (\<exists>es. events w' = events w @ es)"

text \<open>
  The two tables agree when a key lists a runner exactly if the runner's dependency set
  holds the key. Signals and property signals are made with increasing numbers, and a
  number not yet used has no subscribers.
\<close>

definition consistent :: "world \<Rightarrow> bool" where
  "consistent w \<longleftrightarrow> (\<forall>r k. (RunnerFn r \<in> set (subs w k)) = (k \<in> set (deps_of w r)))"

definition allocated :: "world \<Rightarrow> bool" where
  "allocated w \<longleftrightarrow>
     (\<forall>i. next_signal w \<le> i \<longrightarrow> subs w (SigKey i) = []) \<and>
     (\<forall>i. next_propsig w \<le> i \<longrightarrow> subs w (PropSig i) = []) \<and>
     (\<forall>p m key sig. STATE_PROP_SIGNALS w p = Some m \<longrightarrow> m key = Some sig \<longrightarrow> sig < next_propsig w)"

definition keeps :: "world \<Rightarrow> world \<Rightarrow> bool" where
  "keeps w w' \<longleftrightarrow> (consistent w \<and> allocated w \<longrightarrow> consistent w' \<and> allocated w')"

section \<open>Dependencies after a run\<close>

text \<open>
  The keys that list a runner are the keys tracked for it since its subscriptions were last
  cleared: since event number \<open>cleared w r\<close>.
\<close>

definition traced :: "world \<Rightarrow> bool" where
  "traced w \<longleftrightarrow>
     (\<forall>r. cleared w r \<le> length (events w)) \<and>
     (\<forall>r k. (RunnerFn r \<in> set (subs w k)) = (Tracked r k \<in> set (drop (cleared w r) (events w))))"

definition tracing :: "world \<Rightarrow> world \<Rightarrow> bool" where
  "tracing w w' \<longleftrightarrow>
     (consistent w \<and> allocated w \<and> traced w \<longrightarrow> consistent w' \<and> allocated w' \<and> traced w')"

text \<open>The event number at which a runner's subscriptions were last cleared only grows.\<close>

definition clears :: "world \<Rightarrow> world \<Rightarrow> bool" where
  "clears w w' \<longleftrightarrow>
     (\<forall>r. cleared w r \<le> length (events w) \<longrightarrow>
          cleared w r \<le> cleared w' r \<and> cleared w' r \<le> length (events w'))"

text \<open>
  An effect that re-enters itself:
  \<^verbatim>\<open>createEffect(() => { if (flag() === 0) { a(); setFlag(1); } })\<close>
  with \<^verbatim>\<open>flag\<close> signal 0 and \<^verbatim>\<open>a\<close> signal 1, both created with value 0.
\<close>

definition reenter_prog :: program where
  "reenter_prog f args =
     SigGet 0 (\<lambda>flag. if flag = VNum 0
                       then SigGet 1 (\<lambda>a. SigSet 0 (VNum 1) (\<lambda>r. Return VUndef))
                       else Return VUndef)"

definition reenter_start :: world where
  "reenter_start = snd (createSignal (VNum 0) (snd (createSignal (VNum 0) init)))"

definition reenter_done :: world where
  "reenter_done = snd (the (createEffect (user reenter_prog 2) (VFun 0) reenter_start))"

text \<open>An effect that reads one signal, \<^verbatim>\<open>createEffect(() => { s(); })\<close>, before its
  initial run.\<close>

definition reader_prog :: program where
  "reader_prog f args = SigGet 0 (\<lambda>v. Return VUndef)"

definition reader_start :: world where
  "reader_start = snd (new_effect 0 (snd (createSignal (VNum 7) init)))"

section \<open>Computed values: scenarios\<close>

text \<open>How often the library has called user function \<open>f\<close>.\<close>

definition invocations :: "nat \<Rightarrow> world \<Rightarrow> nat" where
  "invocations f w =
     length (filter (\<lambda>ev. case ev of Enter g args \<Rightarrow> g = f | _ \<Rightarrow> False) (events w))"

text \<open>\<open>N\<close> calls of the getter of computed \<open>c\<close>, one after the other, with what each
  returned.\<close>

fun getter_times :: "callfn \<Rightarrow> nat \<Rightarrow> nat \<Rightarrow> world \<Rightarrow> (outcome list \<times> world) option" where
  "getter_times call c 0 w = Some ([], w)"
| "getter_times call c (Suc k) w =
     (case getter call c w of
        None \<Rightarrow> None
      | Some (r, w1) \<Rightarrow>
          (case getter_times call c k w1 of
             None \<Rightarrow> None
           | Some (rs, w2) \<Rightarrow> Some (r # rs, w2)))"

text \<open>
  \<^verbatim>\<open>const [n, setN] = createSignal(2); const c = createComputed(() => n() * 2);\<close>
  then \<^verbatim>\<open>c(); c();\<close> then \<^verbatim>\<open>setN(5);\<close>
\<close>

definition double_prog :: program where
  "double_prog f args =
     SigGet 0 (\<lambda>n. Return (case n of VNum i \<Rightarrow> VNum (i * 2) | _ \<Rightarrow> VUndef))"

definition double_start :: world where
  "double_start = snd (createSignal (VNum 2) init)"

definition double_created :: world where
  "double_created = snd (the (createComputed (user double_prog 1) (VFun 0) double_start))"

definition double_read :: world where
  "double_read = snd (the (getter_times (user double_prog 1) 0 2 double_created))"

definition double_set :: world where
  "double_set = snd (the (sig_set (user double_prog 1) 0 (VNum 5) double_read))"

text \<open>\<^verbatim>\<open>const c = createComputed(() => { throw 'boom'; });\<close>\<close>

definition throw_prog :: program where
  "throw_prog f args = Throw (VStr ''boom'')"

definition throw_created :: world where
  "throw_created = snd (the (createComputed (user throw_prog 1) (VFun 0) init))"

text \<open>
  \<^verbatim>\<open>const [s, setS] = createSignal(0);\<close>
  \<^verbatim>\<open>const c = createComputed(() => { s(); return () => log.push('cleanup'); });\<close>
  The function returned is user function 1.
\<close>

definition cleanup_prog :: program where
  "cleanup_prog f args =
     (if f = 0 then SigGet 0 (\<lambda>v. Return (VFun 1))
      else Log (VStr ''cleanup'') (Return VUndef))"

definition cleanup_start :: world where
  "cleanup_start = snd (new_computed 0 (snd (createSignal (VNum 0) init)))"

definition cleanup_created :: world where
  "cleanup_created =
     snd (the (createComputed (user cleanup_prog 1) (VFun 0) (snd (createSignal (VNum 0) init))))"

section \<open>Effects: scenarios\<close>

text \<open>
  \<^verbatim>\<open>const [s, setS] = createSignal(0);\<close>
  \<^verbatim>\<open>createEffect(() => { log.push(s()); return () => log.push('cleanup'); });\<close>
  The function returned is user function 1.
\<close>

definition effect_prog :: program where
  "effect_prog f args =
     (if f = 0 then SigGet 0 (\<lambda>v. Log v (Return (VFun 1)))
      else Log (VStr ''cleanup'') (Return VUndef))"

definition effect_created :: world where
  "effect_created =
     snd (the (createEffect (user effect_prog 1) (VFun 0) (snd (createSignal (VNum 0) init))))"


text \<open>The same effect when \<^verbatim>\<open>setS(1)\<close> notifies it.\<close>

definition effect_set :: world where
  "effect_set = snd (the (sig_set (user effect_prog 1) 0 (VNum 1) effect_created))"

text \<open>
  An effect whose cleanup throws and whose \<^verbatim>\<open>fn\<close> throws in its second run:
  \<^verbatim>\<open>const [s, setS] = createSignal(0);\<close>
  \<^verbatim>\<open>createEffect(() => { if (s() !== 0) throw 'fn failed'; return () => { throw 'cleanup failed'; }; });\<close>
  then \<^verbatim>\<open>setS(1)\<close>. The function returned is user function 1. \<open>faulty_stored\<close> is the
  state in which \<^verbatim>\<open>setS(1)\<close> calls the runner: the value is stored, nobody is notified
  yet.
\<close>

definition faulty_prog :: program where
  "faulty_prog f args =
     (if f = 0
      then SigGet 0 (\<lambda>v. if v = VNum 0 then Return (VFun 1) else Throw (VStr ''fn failed''))
      else Throw (VStr ''cleanup failed''))"

definition faulty_created :: world where
  "faulty_created =
     snd (the (createEffect (user faulty_prog 1) (VFun 0) (snd (createSignal (VNum 0) init))))"

definition faulty_stored :: world where
  "faulty_stored = faulty_created\<lparr>sig_value := (sig_value faulty_created)(0 := VNum 1)\<rparr>"

definition faulty_set :: world where
  "faulty_set = snd (the (sig_set (user faulty_prog 1) 0 (VNum 1) faulty_created))"

section \<open>Signals: scenarios\<close>

text \<open>What the user functions logged, in order.\<close>

definition logged :: "world \<Rightarrow> val list" where
  "logged w = concat (map (\<lambda>ev. case ev of Logged v \<Rightarrow> [v] | _ \<Rightarrow> []) (events w))"

text \<open>
  \<^verbatim>\<open>const [get, set, sub] = createSignal(0); const log = [];\<close>
  \<^verbatim>\<open>sub(() => log.push(get())); set(1); set(1); set(2);\<close>
\<close>

definition log_prog :: program where
  "log_prog f args = SigGet 0 (\<lambda>v. Log v (Return VUndef))"

definition log_start :: world where
  "log_start = subscribe 0 (VFun 0) (snd (createSignal (VNum 0) init))"

definition log_set1 :: world where
  "log_set1 = snd (the (sig_set (user log_prog 1) 0 (VNum 1) log_start))"

definition log_set2 :: world where
  "log_set2 = snd (the (sig_set (user log_prog 1) 0 (VNum 1) log_set1))"

definition log_set3 :: world where
  "log_set3 = snd (the (sig_set (user log_prog 1) 0 (VNum 2) log_set2))"

text \<open>
  A subscriber that sets the signal it listens to:
  \<^verbatim>\<open>const [get, set, sub] = createSignal(0); sub(() => { if (get() === 1) set(2); });\<close>
\<close>

definition clamp_prog :: program where
  "clamp_prog f args =
     SigGet 0 (\<lambda>v. if v = VNum 1 then SigSet 0 (VNum 2) (\<lambda>r. Return VUndef) else Return VUndef)"

definition clamp_start :: world where
  "clamp_start = subscribe 0 (VFun 0) (snd (createSignal (VNum 0) init))"

text \<open>
  A signal with an effect and two plain subscribers, the first of which throws:
  \<^verbatim>\<open>const [get, set, sub] = createSignal(0); createEffect(() => { log.push(get()); });\<close>
  \<^verbatim>\<open>sub(() => { throw 'subscriber failed'; }); sub(() => log.push('after'));\<close>
  then \<^verbatim>\<open>set(1)\<close> and \<^verbatim>\<open>set((v) => v + 1)\<close>, the updater being user function 3.
\<close>

definition mixed_prog :: program where
  "mixed_prog f args =
     (if f = 0 then SigGet 0 (\<lambda>v. Log v (Return VUndef))
      else if f = 1 then Throw (VStr ''subscriber failed'')
      else if f = 2 then Log (VStr ''after'') (Return VUndef)
      else Return (case args of [VNum i] \<Rightarrow> VNum (i + 1) | _ \<Rightarrow> VUndef))"

definition mixed_start :: world where
  "mixed_start =
     subscribe 0 (VFun 2) (subscribe 0 (VFun 1)
       (snd (the (createEffect (user mixed_prog 1) (VFun 0) (snd (createSignal (VNum 0) init))))))"

definition mixed_set :: world where
  "mixed_set = snd (the (sig_set (user mixed_prog 1) 0 (VNum 1) mixed_start))"

section \<open>State proxies: scenarios\<close>

text \<open>No property signal exists for the two reserved names.\<close>

definition unreserved :: "world \<Rightarrow> bool" where
  "unreserved w \<longleftrightarrow>
     (\<forall>p m. STATE_PROP_SIGNALS w p = Some m \<longrightarrow>
        m (PStr ''subscribe'') = None \<and> m (PStr ''inspect'') = None)"

definition keeps_unreserved :: "world \<Rightarrow> world \<Rightarrow> bool" where
  "keeps_unreserved w w' \<longleftrightarrow> (unreserved w \<longrightarrow> unreserved w')"

text \<open>
  \<^verbatim>\<open>const state = $state({ x: 0 }); state.subscribe(g);\<close>
  \<^verbatim>\<open>createEffect(() => { log.push(state.x); });\<close>
  with \<^verbatim>\<open>g\<close> user function 1, which does nothing. Then one of: \<^verbatim>\<open>state.x = 1\<close>,
  \<^verbatim>\<open>delete state.x\<close>, \<^verbatim>\<open>state.subscribe = 5\<close>.
\<close>

definition state_prog :: program where
  "state_prog f args =
     (if f = 0
      then PropGet 0 (PStr ''x'') (\<lambda>r. case r of Data v \<Rightarrow> Log v (Return VUndef) | _ \<Rightarrow> Return VUndef)
      else Return VUndef)"

definition state_start :: world where
  "state_start =
     snd (the (createEffect (user state_prog 1) (VFun 0)
       (state_subscribe 0 1 (snd (state ((\<lambda>k. None)(PStr ''x'' \<mapsto> VNum 0)) init)))))"



definition state_reserved :: world where
  "state_reserved =
     snd (the (handler_set (user state_prog 1) 0 (PStr ''subscribe'') (VNum 5) state_start))"






text \<open>
  An effect that disposes itself:
  \<^verbatim>\<open>const [s, setS] = createSignal(0);\<close>
  \<^verbatim>\<open>const dispose = createEffect(() => { if (s() === 1) dispose(); log.push(s()); });\<close>
  then \<^verbatim>\<open>setS(1); setS(2);\<close>
\<close>

definition zombie_prog :: program where
  "zombie_prog f args =
     SigGet 0 (\<lambda>v. if v = VNum 1
                    then Dispose 0 (SigGet 0 (\<lambda>u. Log u (Return VUndef)))
                    else SigGet 0 (\<lambda>u. Log u (Return VUndef)))"

definition zombie_start :: world where
  "zombie_start =
     snd (the (createEffect (user zombie_prog 1) (VFun 0) (snd (createSignal (VNum 0) init))))"

definition zombie_disposed :: world where
  "zombie_disposed = snd (the (sig_set (user zombie_prog 1) 0 (VNum 1) zombie_start))"

definition zombie_after :: world where
  "zombie_after = snd (the (sig_set (user zombie_prog 1) 0 (VNum 2) zombie_disposed))"


section \<open>The states that can be reached\<close>

text \<open>
  From the initial state, by the constructors, by \<^verbatim>\<open>subscribe\<close> and the function it
  returns, and by any code that runs outside the user functions (a script).
\<close>

inductive reachable :: "program \<Rightarrow> world \<Rightarrow> bool" for \<Pi> :: program where
  at_init: "reachable \<Pi> init"
| at_createSignal: "reachable \<Pi> w \<Longrightarrow> reachable \<Pi> (snd (createSignal v w))"
| at_subscribe: "reachable \<Pi> w \<Longrightarrow> s < next_signal w \<Longrightarrow> reachable \<Pi> (subscribe s fn w)"
| at_unsubscribe: "reachable \<Pi> w \<Longrightarrow> s < next_signal w \<Longrightarrow> reachable \<Pi> (unsubscribe_fn s fn w)"
| at_createEffect:
    "reachable \<Pi> w \<Longrightarrow> createEffect (user \<Pi> n) fn w = Some (r, w') \<Longrightarrow> reachable \<Pi> w'"
| at_createComputed:
    "reachable \<Pi> w \<Longrightarrow> createComputed (user \<Pi> n) fn w = Some (r, w') \<Longrightarrow> reachable \<Pi> w'"
| at_state: "reachable \<Pi> w \<Longrightarrow> reachable \<Pi> (snd (state initial w))"
| at_state_subscribe:
    "reachable \<Pi> w \<Longrightarrow> p < next_state w \<Longrightarrow> reachable \<Pi> (state_subscribe p f w)"
| at_run: "reachable \<Pi> w \<Longrightarrow> run (user \<Pi> n) script w = Some (r, w') \<Longrightarrow> reachable \<Pi> w'"

text \<open>What holds in every state that can be reached: the two tables agree, numbers not
  yet used have no subscribers, the keys that list a runner are those tracked for it since
  its subscriptions were last cleared, the reserved names have no property signal, and no
  runner is on the stack.\<close>

definition sound :: "world \<Rightarrow> bool" where
  "sound w \<longleftrightarrow>
     consistent w \<and> allocated w \<and> traced w \<and> unreserved w \<and> EFFECT_STACK w = []"

section \<open>Steady relations\<close>

lemma steady_refl: "steady R \<Longrightarrow> R w w"
  by (simp add: steady_def)

lemma steady_trans: "steady R \<Longrightarrow> R a b \<Longrightarrow> R b c \<Longrightarrow> R a c"
proof -
  assume "steady R" then have "\<forall>a b c. R a b \<longrightarrow> R b c \<longrightarrow> R a c" by (simp add: steady_def)
  then show "R a b \<Longrightarrow> R b c \<Longrightarrow> R a c" by blast
qed

lemma steady_emit: "steady R \<Longrightarrow> \<not> is_tracked e \<Longrightarrow> R w (emit e w)"
  by (simp add: steady_def)

lemma steady_after_emit:
  "steady R \<Longrightarrow> R (emit e w) w' \<Longrightarrow> \<not> is_tracked e \<Longrightarrow> R w w'"
  using steady_trans[of R w "emit e w" w'] steady_emit[of R e w] by blast

lemma steady_unsubscribe: "steady R \<Longrightarrow> R w (unsubscribe r w)"
  by (simp add: steady_def)

lemma steady_sig_get: "steady R \<Longrightarrow> s < next_signal w \<Longrightarrow> sig_get s w = (v, w') \<Longrightarrow> R w w'"
  unfolding steady_def by (metis snd_conv)

lemma steady_handler_get: "steady R \<Longrightarrow> handler_get p prop w = (v, w') \<Longrightarrow> R w w'"
  unfolding steady_def by (metis snd_conv)

lemma steady_sig_value: "steady R \<Longrightarrow> R w (w\<lparr>sig_value := f\<rparr>)"
  by (simp add: steady_def)

lemma steady_eff_cleanup: "steady R \<Longrightarrow> R w (w\<lparr>eff_cleanup := f\<rparr>)"
  by (simp add: steady_def)

lemma steady_comp_cleanup: "steady R \<Longrightarrow> R w (w\<lparr>comp_cleanup := f\<rparr>)"
  by (simp add: steady_def)

lemma steady_comp_cached: "steady R \<Longrightarrow> R w (w\<lparr>comp_cached := f\<rparr>)"
  by (simp add: steady_def)

lemma steady_comp_dirty: "steady R \<Longrightarrow> R w (w\<lparr>comp_dirty := f\<rparr>)"
  by (simp add: steady_def)

lemma steady_target: "steady R \<Longrightarrow> R w (w\<lparr>target := f\<rparr>)"
  by (simp add: steady_def)

lemma steady_discard: "steady R \<Longrightarrow> R w (w\<lparr>STATE_PROP_SIGNALS := (STATE_PROP_SIGNALS w)
          (p := map_option (\<lambda>m. m(prop := None)) (STATE_PROP_SIGNALS w p))\<rparr>)"
  by (simp add: steady_def)

lemma steady_bracket: "steady R \<Longrightarrow> R (push r w) w' \<Longrightarrow> R w (pop w')"
  by (simp add: steady_def)

lemma obeysD: "obeys R call \<Longrightarrow> call f args w = Some (r, w') \<Longrightarrow> R w w'"
  unfolding obeys_def by blast

lemma cif_obeys:
  assumes "steady R" "obeys R call" "call_if_function call v w = Some (r, w')"
  shows "R w w'"
  using assms
  by (auto simp: call_if_function_def split: val.splits dest: obeysD intro: steady_refl)

lemma runner_obeys:
  assumes st: "steady R" and rs: "obeys R call" and run: "runner call e w = Some (r, w')"
  shows "R w w'"
proof -
  let ?w1 = "unsubscribe (Eff e) w"
  from run obtain r2 w2 where c: "call_if_function call (eff_cleanup ?w1 e) ?w1 = Some (r2, w2)"
    by (auto simp: runner_def Let_def split: option.splits)
  define w3 where "w3 = (case r2 of Exn err \<Rightarrow> emit (ConsoleError [err]) w2 | Normal x \<Rightarrow> w2)"
  define w4 where "w4 = w3\<lparr>eff_cleanup := (eff_cleanup w3)(e := VNull)\<rparr>"
  from run c obtain r6 w6 where f: "call (eff_fn (push (Eff e) w4) e) [] (push (Eff e) w4) = Some (r6, w6)"
    by (auto simp: runner_def Let_def w3_def w4_def split: option.splits)
  define w7 where "w7 = (case r6 of
       Normal m \<Rightarrow> (if is_function m then w6\<lparr>eff_cleanup := (eff_cleanup w6)(e := m)\<rparr> else w6)
     | Exn err \<Rightarrow> emit (ConsoleError [VStr ''createEffect error'', err]) w6)"
  from run c f have w': "w' = pop w7"
    by (auto simp: runner_def Let_def w3_def w4_def w7_def split: option.splits outcome.splits)
  have a: "R w ?w1" by (rule steady_unsubscribe[OF st])
  have b: "R ?w1 w2" by (rule cif_obeys[OF st rs c])
  have c3: "R w2 w3" unfolding w3_def
    by (cases r2) (auto intro: steady_refl[OF st] steady_emit[OF st])
  have d: "R w3 w4" unfolding w4_def by (rule steady_eff_cleanup[OF st])
  have e5: "R (push (Eff e) w4) w6" by (rule obeysD[OF rs f])
  have g: "R w6 w7" unfolding w7_def
    by (cases r6) (auto intro: steady_refl[OF st] steady_emit[OF st] steady_eff_cleanup[OF st])
  have "R w4 (pop w7)" by (rule steady_bracket[OF st steady_trans[OF st e5 g]])
  then have "R w3 (pop w7)" by (rule steady_trans[OF st d])
  then have "R w2 (pop w7)" by (rule steady_trans[OF st c3])
  then have "R ?w1 (pop w7)" by (rule steady_trans[OF st b])
  then show ?thesis unfolding w' by (rule steady_trans[OF st a])
qed

lemma dispose_obeys:
  assumes st: "steady R" and rs: "obeys R call" and run: "dispose call e w = Some (r, w')"
  shows "R w w'"
proof -
  let ?w1 = "unsubscribe (Eff e) w"
  from run obtain r2 w2 where c: "call_if_function call (eff_cleanup ?w1 e) ?w1 = Some (r2, w2)"
    by (auto simp: dispose_def Let_def split: option.splits)
  define w3 where "w3 = (case r2 of Exn err \<Rightarrow> emit (ConsoleError [err]) w2 | Normal x \<Rightarrow> w2)"
  from run c have w': "w' = w3\<lparr>eff_cleanup := (eff_cleanup w3)(e := VNull)\<rparr>"
    by (auto simp: dispose_def Let_def w3_def split: option.splits)
  have a: "R w ?w1" by (rule steady_unsubscribe[OF st])
  have b: "R ?w1 w2" by (rule cif_obeys[OF st rs c])
  have c3: "R w2 w3" unfolding w3_def
    by (cases r2) (auto intro: steady_refl[OF st] steady_emit[OF st])
  have "R w3 w'" unfolding w' by (rule steady_eff_cleanup[OF st])
  then have "R w2 w'" by (rule steady_trans[OF st c3])
  then have "R ?w1 w'" by (rule steady_trans[OF st b])
  then show ?thesis by (rule steady_trans[OF st a])
qed

lemma recompute_obeys:
  assumes st: "steady R" and rs: "obeys R call" and run: "recompute call c w = Some (r, w')"
  shows "R w w'"
proof -
  let ?w1 = "unsubscribe (Comp c) w"
  from run obtain r2 w2 where cl: "call_if_function call (comp_cleanup ?w1 c) ?w1 = Some (r2, w2)"
    by (auto simp: recompute_def Let_def split: option.splits)
  define w4 where "w4 = w2\<lparr>comp_cleanup := (comp_cleanup w2)(c := VNull)\<rparr>"
  from run cl obtain r6 w6 where f: "call (comp_fn (push (Comp c) w4) c) [] (push (Comp c) w4) = Some (r6, w6)"
    by (auto simp: recompute_def Let_def w4_def split: option.splits)
  define w7 where "w7 = (case r6 of
       Normal result \<Rightarrow>
         (let v = (if is_function result
                   then w6\<lparr>comp_cleanup := (comp_cleanup w6)(c := result)\<rparr>
                   else w6\<lparr>comp_cached := (comp_cached w6)(c := result)\<rparr>)
          in v\<lparr>comp_dirty := (comp_dirty v)(c := False)\<rparr>)
     | Exn err \<Rightarrow> emit (ConsoleError [VStr ''createComputed error'', err]) w6)"
  from run cl f have w': "w' = pop w7"
    by (auto simp: recompute_def Let_def w4_def w7_def split: option.splits outcome.splits)
  have a: "R w ?w1" by (rule steady_unsubscribe[OF st])
  have b: "R ?w1 w2" by (rule cif_obeys[OF st rs cl])
  have d: "R w2 w4" unfolding w4_def by (rule steady_comp_cleanup[OF st])
  have e5: "R (push (Comp c) w4) w6" by (rule obeysD[OF rs f])
  have g: "R w6 w7" unfolding w7_def Let_def
    by (cases r6)
       (auto intro: steady_emit[OF st] steady_trans[OF st steady_comp_cleanup[OF st] steady_comp_dirty[OF st]]
          steady_trans[OF st steady_comp_cached[OF st] steady_comp_dirty[OF st]])
  have "R w4 (pop w7)" by (rule steady_bracket[OF st steady_trans[OF st e5 g]])
  then have "R w2 (pop w7)" by (rule steady_trans[OF st d])
  then have "R ?w1 (pop w7)" by (rule steady_trans[OF st b])
  then show ?thesis unfolding w' by (rule steady_trans[OF st a])
qed

lemma getter_obeys:
  assumes st: "steady R" and rs: "obeys R call" and run: "getter call c w = Some (r, w')"
  shows "R w w'"
  using run
  by (auto simp: getter_def split: if_splits option.splits
      intro: steady_refl[OF st] recompute_obeys[OF st rs])

lemma invoke_obeys:
  assumes st: "steady R" and rs: "obeys R call" and run: "invoke call fn w = Some (r, w')"
  shows "R w w'"
proof (cases fn)
  case (RunnerFn x)
  with run show ?thesis
    by (cases x) (auto intro: runner_obeys[OF st rs] recompute_obeys[OF st rs])
next
  case (UserFn f)
  with run show ?thesis by (auto intro: obeysD[OF rs])
qed

lemma notify_obeys:
  assumes st: "steady R" and rs: "obeys R call"
  shows "notify call arr w = Some (r, w') \<Longrightarrow> R w w'"
proof (induction arr arbitrary: w)
  case Nil
  then show ?case by (auto intro: steady_refl[OF st])
next
  case (Cons fn arr)
  from Cons.prems obtain r1 w1 where i: "invoke call fn w = Some (r1, w1)"
    by (auto split: option.splits)
  have a: "R w w1" by (rule invoke_obeys[OF st rs i])
  show ?case
  proof (cases r1)
    case (Normal x)
    with Cons.prems i have "notify call arr w1 = Some (r, w')" by simp
    then have "R w1 w'" by (rule Cons.IH)
    then show ?thesis by (rule steady_trans[OF st a])
  next
    case (Exn err)
    with Cons.prems i have "notify call arr (emit (AsyncThrow err) w1) = Some (r, w')" by simp
    then have "R (emit (AsyncThrow err) w1) w'" by (rule Cons.IH)
    then have "R w1 w'" by (rule steady_after_emit[OF st]) simp
    then show ?thesis by (rule steady_trans[OF st a])
  qed
qed

lemma notifyGlobal_obeys:
  assumes st: "steady R" and rs: "obeys R call"
  shows "notifyGlobal call fns args w = Some (r, w') \<Longrightarrow> R w w'"
proof (induction fns arbitrary: w)
  case Nil
  then show ?case by (auto intro: steady_refl[OF st])
next
  case (Cons fn fns)
  from Cons.prems obtain r1 w1 where i: "call fn args w = Some (r1, w1)"
    by (auto split: option.splits)
  have a: "R w w1" by (rule obeysD[OF rs i])
  show ?case
  proof (cases r1)
    case (Normal x)
    with Cons.prems i have "notifyGlobal call fns args w1 = Some (r, w')" by simp
    then have "R w1 w'" by (rule Cons.IH)
    then show ?thesis by (rule steady_trans[OF st a])
  next
    case (Exn err)
    with Cons.prems i have "notifyGlobal call fns args (emit (ConsoleError [err]) w1) = Some (r, w')"
      by simp
    then have "R (emit (ConsoleError [err]) w1) w'" by (rule Cons.IH)
    then have "R w1 w'" by (rule steady_after_emit[OF st]) simp
    then show ?thesis by (rule steady_trans[OF st a])
  qed
qed

lemma sig_set_obeys:
  assumes st: "steady R" and rs: "obeys R call" and run: "sig_set call s newVal w = Some (r, w')"
  shows "R w w'"
proof -
  from run obtain r1 w1 where
    u: "(case newVal of VFun f \<Rightarrow> call f [sig_value w s] w | _ \<Rightarrow> Some (Normal newVal, w)) = Some (r1, w1)"
    by (auto simp: sig_set_def Let_def split: option.splits)
  have a: "R w w1" using u
    by (cases newVal) (auto intro: steady_refl[OF st] obeysD[OF rs])
  show ?thesis
  proof (cases r1)
    case (Exn err)
    with run u have "w' = w1" by (auto simp: sig_set_def Let_def)
    with a show ?thesis by simp
  next
    case (Normal v)
    let ?w2 = "w1\<lparr>sig_value := (sig_value w1)(s := v)\<rparr>"
    have b: "R w1 ?w2" by (rule steady_sig_value[OF st])
    show ?thesis
    proof (cases "sig_value w s = v")
      case True
      with run u Normal have "w' = ?w2" by (auto simp: sig_set_def Let_def)
      with steady_trans[OF st a b] show ?thesis by simp
    next
      case False
      with run u Normal obtain r3 where "notify call (subs ?w2 (SigKey s)) ?w2 = Some (r3, w')"
        by (auto simp: sig_set_def Let_def split: option.splits)
      then have "R ?w2 w'" by (rule notify_obeys[OF st rs])
      then have "R w1 w'" by (rule steady_trans[OF st b])
      then show ?thesis by (rule steady_trans[OF st a])
    qed
  qed
qed

lemma handler_set_obeys:
  assumes st: "steady R" and rs: "obeys R call" and run: "handler_set call p prop v w = Some (r, w')"
  shows "R w w'"
proof -
  let ?w1 = "w\<lparr>target := (target w)(p := (target w p)(prop \<mapsto> v))\<rparr>"
  have a: "R w ?w1" by (rule steady_target[OF st])
  show ?thesis
  proof (cases "target_get w p prop = v")
    case True
    with run have "w' = ?w1" by (auto simp: handler_set_def Let_def)
    with a show ?thesis by simp
  next
    case False
    with run obtain r2 w2 r3 where n: "notify call (prop_subs ?w1 p prop) ?w1 = Some (r2, w2)"
      and g: "notifyGlobal call (globalSubs w2 p) [key_val prop, target_get w p prop, v] w2 = Some (r3, w')"
      by (auto simp: handler_set_def Let_def split: option.splits)
    have "R w2 w'" by (rule notifyGlobal_obeys[OF st rs g])
    then have "R ?w1 w'" by (rule steady_trans[OF st notify_obeys[OF st rs n]])
    then show ?thesis by (rule steady_trans[OF st a])
  qed
qed

lemma handler_deleteProperty_obeys:
  assumes st: "steady R" and rs: "obeys R call"
    and run: "handler_deleteProperty call p prop w = Some (r, w')"
  shows "R w w'"
proof -
  let ?w1 = "w\<lparr>target := (target w)(p := (target w p)(prop := None))\<rparr>"
  have a: "R w ?w1" by (rule steady_target[OF st])
  show ?thesis
  proof (cases "has_property w p prop")
    case False
    with run have "w' = ?w1" by (auto simp: handler_deleteProperty_def Let_def)
    with a show ?thesis by simp
  next
    case True
    define w3 where "w3 = (\<lambda>w2::world. w2\<lparr>STATE_PROP_SIGNALS := (STATE_PROP_SIGNALS w2)
                             (p := map_option (\<lambda>m. m(prop := None)) (STATE_PROP_SIGNALS w2 p))\<rparr>)"
    from True run obtain r2 w2 r3 where n: "notify call (prop_subs ?w1 p prop) ?w1 = Some (r2, w2)"
      and g: "notifyGlobal call (globalSubs (w3 w2) p) [key_val prop, target_get w p prop, VUndef] (w3 w2)
                = Some (r3, w')"
      by (auto simp: handler_deleteProperty_def Let_def w3_def split: option.splits)
    have d: "R w2 (w3 w2)" unfolding w3_def by (rule steady_discard[OF st])
    have "R (w3 w2) w'" by (rule notifyGlobal_obeys[OF st rs g])
    then have "R w2 w'" by (rule steady_trans[OF st d])
    then have "R ?w1 w'" by (rule steady_trans[OF st notify_obeys[OF st rs n]])
    then show ?thesis by (rule steady_trans[OF st a])
  qed
qed

lemma run_obeys:
  assumes st: "steady R" and rs: "obeys R call"
  shows "run call q w = Some (r, w') \<Longrightarrow> R w w'"
proof (induction q arbitrary: w)
  case (Return v)
  then show ?case by (auto intro: steady_refl[OF st])
next
  case (Throw v)
  then show ?case by (auto intro: steady_refl[OF st])
next
  case (Log v q)
  from Log.prems have "R (emit (Logged v) w) w'" by (auto intro: Log.IH)
  then show ?case by (rule steady_after_emit[OF st]) simp
next
  case (SigGet s k)
  show ?case
  proof (cases "s < next_signal w")
    case True
    obtain v w1 where g: "sig_get s w = (v, w1)" by (cases "sig_get s w")
    with True SigGet.prems have "run call (k v) w1 = Some (r, w')" by simp
    then have "R w1 w'" by (rule SigGet.IH[OF rangeI])
    then show ?thesis by (rule steady_trans[OF st steady_sig_get[OF st True g]])
  next
    case False
    with SigGet.prems show ?thesis by (auto intro: steady_refl[OF st])
  qed
next
  case (SigSet s v k)
  show ?case
  proof (cases "s < next_signal w")
    case True
    with SigSet.prems obtain r1 w1 where g: "sig_set call s v w = Some (r1, w1)"
      by (auto split: option.splits)
    have a: "R w w1" by (rule sig_set_obeys[OF st rs g])
    show ?thesis
    proof (cases r1)
      case (Normal x)
      with True g SigSet.prems have "run call (k x) w1 = Some (r, w')" by simp
      then have "R w1 w'" by (rule SigSet.IH[OF rangeI])
      then show ?thesis by (rule steady_trans[OF st a])
    next
      case (Exn err)
      with True g SigSet.prems a show ?thesis by auto
    qed
  next
    case False
    with SigSet.prems show ?thesis by (auto intro: steady_refl[OF st])
  qed
next
  case (CompGet c k)
  show ?case
  proof (cases "c < next_computed w")
    case True
    with CompGet.prems obtain r1 w1 where g: "getter call c w = Some (r1, w1)"
      by (auto split: option.splits)
    have a: "R w w1" by (rule getter_obeys[OF st rs g])
    show ?thesis
    proof (cases r1)
      case (Normal x)
      with True g CompGet.prems have "run call (k x) w1 = Some (r, w')" by simp
      then have "R w1 w'" by (rule CompGet.IH[OF rangeI])
      then show ?thesis by (rule steady_trans[OF st a])
    next
      case (Exn err)
      with True g CompGet.prems a show ?thesis by auto
    qed
  next
    case False
    with CompGet.prems show ?thesis by (auto intro: steady_refl[OF st])
  qed
next
  case (PropGet p key k)
  show ?case
  proof (cases "p < next_state w")
    case True
    obtain v w1 where g: "handler_get p key w = (v, w1)" by (cases "handler_get p key w")
    with True PropGet.prems have "run call (k v) w1 = Some (r, w')" by simp
    then have "R w1 w'" by (rule PropGet.IH[OF rangeI])
    then show ?thesis by (rule steady_trans[OF st steady_handler_get[OF st g]])
  next
    case False
    with PropGet.prems show ?thesis by (auto intro: steady_refl[OF st])
  qed
next
  case (PropSet p key v q)
  show ?case
  proof (cases "p < next_state w")
    case True
    with PropSet.prems obtain r1 w1 where g: "handler_set call p key v w = Some (r1, w1)"
      by (auto split: option.splits)
    have a: "R w w1" by (rule handler_set_obeys[OF st rs g])
    show ?thesis
    proof (cases r1)
      case (Normal x)
      with True g PropSet.prems have "run call q w1 = Some (r, w')" by simp
      then have "R w1 w'" by (rule PropSet.IH)
      then show ?thesis by (rule steady_trans[OF st a])
    next
      case (Exn err)
      with True g PropSet.prems a show ?thesis by auto
    qed
  next
    case False
    with PropSet.prems show ?thesis by (auto intro: steady_refl[OF st])
  qed
next
  case (PropDel p key q)
  show ?case
  proof (cases "p < next_state w")
    case True
    with PropDel.prems obtain r1 w1 where g: "handler_deleteProperty call p key w = Some (r1, w1)"
      by (auto split: option.splits)
    have a: "R w w1" by (rule handler_deleteProperty_obeys[OF st rs g])
    show ?thesis
    proof (cases r1)
      case (Normal x)
      with True g PropDel.prems have "run call q w1 = Some (r, w')" by simp
      then have "R w1 w'" by (rule PropDel.IH)
      then show ?thesis by (rule steady_trans[OF st a])
    next
      case (Exn err)
      with True g PropDel.prems a show ?thesis by auto
    qed
  next
    case False
    with PropDel.prems show ?thesis by (auto intro: steady_refl[OF st])
  qed
next
  case (Inspect p k)
  show ?case
  proof (cases "p < next_state w")
    case True
    with Inspect.prems have "run call (k (inspect p w)) w = Some (r, w')" by simp
    then show ?thesis by (rule Inspect.IH[OF rangeI])
  next
    case False
    with Inspect.prems show ?thesis by (auto intro: steady_refl[OF st])
  qed
next
  case (Dispose e q)
  show ?case
  proof (cases "e < next_effect w")
    case True
    with Dispose.prems obtain r1 w1 where g: "dispose call e w = Some (r1, w1)"
      by (auto split: option.splits)
    have a: "R w w1" by (rule dispose_obeys[OF st rs g])
    show ?thesis
    proof (cases r1)
      case (Normal x)
      with True g Dispose.prems have "run call q w1 = Some (r, w')" by simp
      then have "R w1 w'" by (rule Dispose.IH)
      then show ?thesis by (rule steady_trans[OF st a])
    next
      case (Exn err)
      with True g Dispose.prems a show ?thesis by auto
    qed
  next
    case False
    with Dispose.prems show ?thesis by (auto intro: steady_refl[OF st])
  qed
qed

lemma user_obeys:
  assumes st: "steady R"
  shows "obeys R (user \<Pi> n)"
proof (induction n)
  case 0
  show ?case by (simp add: obeys_def)
next
  case (Suc n)
  show ?case unfolding obeys_def
  proof (intro allI impI)
    fix f args w r w'
    assume "user \<Pi> (Suc n) f args w = Some (r, w')"
    then have "run (user \<Pi> n) (\<Pi> f args) (emit (Enter f args) w) = Some (r, w')" by simp
    then have "R (emit (Enter f args) w) w'" by (rule run_obeys[OF st Suc.IH])
    then show "R w w'" by (rule steady_after_emit[OF st]) simp
  qed
qed

lemma fold_unsub:
  "fold (\<lambda>sigKey v. v\<lparr>subs := (subs v)(sigKey := removeAll x (subs v sigKey))\<rparr>) ds (w::world)
     = w\<lparr>subs := (\<lambda>k. if k \<in> set ds then removeAll x (subs w k) else subs w k)\<rparr>"
proof -
  define F where "F = (\<lambda>sigKey (v::world). v\<lparr>subs := (subs v)(sigKey := removeAll x (subs v sigKey))\<rparr>)"
  have "fold F ds w = w\<lparr>subs := (\<lambda>k. if k \<in> set ds then removeAll x (subs w k) else subs w k)\<rparr>"
    for w
  proof (induction ds arbitrary: w)
    case Nil
    show ?case by simp
  next
    case (Cons d ds)
    have "fold F (d # ds) w = fold F ds (F d w)" by simp
    also have "\<dots> = (F d w)\<lparr>subs := (\<lambda>k. if k \<in> set ds then removeAll x (subs (F d w) k)
                                        else subs (F d w) k)\<rparr>"
      by (rule Cons.IH)
    also have "\<dots> = w\<lparr>subs := (\<lambda>k. if k \<in> set (d # ds) then removeAll x (subs w k) else subs w k)\<rparr>"
      by (auto simp: F_def fun_eq_iff)
    finally show ?case .
  qed
  then show ?thesis unfolding F_def .
qed

lemma unsubscribe_eq:
  "unsubscribe r w =
     (case EFFECT_DEPS w r of
        None \<Rightarrow> w\<lparr>cleared := (cleared w)(r := length (events w))\<rparr>
      | Some ds \<Rightarrow> w\<lparr>subs := (\<lambda>k. if k \<in> set ds then removeAll (RunnerFn r) (subs w k) else subs w k),
                    EFFECT_DEPS := (EFFECT_DEPS w)(r := None),
                    cleared := (cleared w)(r := length (events w))\<rparr>)"
  by (simp add: unsubscribe_def fold_unsub split: option.splits)

lemma trackDependency_eq:
  "trackDependency r k w =
     w\<lparr>subs := (subs w)(k := set_add (RunnerFn r) (subs w k)),
       EFFECT_DEPS := (EFFECT_DEPS w)(r \<mapsto> set_add k (deps_of w r)),
       events := events w @ [Tracked r k]\<rparr>"
  by (auto simp: trackDependency_def Let_def set_add_def emit_def deps_of_def split: option.splits)

lemma frame_sig_get: "frame w (snd (sig_get s w))"
  by (simp add: frame_def sig_get_def trackDependency_eq split: option.splits)

lemma frame_handler_get: "frame w (snd (handler_get p prop w))"
  by (simp add: frame_def handler_get_def trackDependency_eq ensurePropSignalFor_def Let_def
      split: option.splits pkey.splits prod.splits)

lemma steady_frame: "steady frame"
  unfolding steady_def
proof (intro conjI allI impI)
  fix w s show "frame w (snd (sig_get s w))" by (rule frame_sig_get)
next
  fix w p key show "frame w (snd (handler_get p key w))" by (rule frame_handler_get)
next
  fix w r show "frame w (unsubscribe r w)"
    by (simp add: frame_def unsubscribe_eq split: option.splits)
next
  fix a b c assume "frame a b" "frame b c" then show "frame a c"
    by (auto simp: frame_def)
next
  fix w r w' assume "frame (push r w) w'" then show "frame w (pop w')"
    by (auto simp: frame_def push_def pop_def)
qed (simp_all add: frame_def emit_def)

lemma consistent_track:
  assumes "consistent w"
  shows "consistent (trackDependency r k w)"
  using assms
  by (auto simp: consistent_def trackDependency_eq deps_of_def set_add_def split: option.splits)

lemma consistent_unsubscribe:
  assumes "consistent w"
  shows "consistent (unsubscribe r w)"
proof (cases "EFFECT_DEPS w r")
  case None
  with assms show ?thesis by (simp add: unsubscribe_eq consistent_def deps_of_def)
next
  case (Some ds)
  have d: "deps_of w r = ds" using Some by (simp add: deps_of_def)
  show ?thesis unfolding consistent_def
  proof (intro allI)
    fix r' k
    show "(RunnerFn r' \<in> set (subs (unsubscribe r w) k)) = (k \<in> set (deps_of (unsubscribe r w) r'))"
    proof (cases "r' = r")
      case True
      have "RunnerFn r \<in> set (subs w k) \<longleftrightarrow> k \<in> set ds" using assms d by (simp add: consistent_def)
      then show ?thesis using True Some by (simp add: unsubscribe_eq deps_of_def)
    next
      case False
      have "RunnerFn r' \<in> set (subs w k) \<longleftrightarrow> k \<in> set (deps_of w r')"
        using assms by (simp add: consistent_def)
      then show ?thesis using False Some by (simp add: unsubscribe_eq deps_of_def)
    qed
  qed
qed

lemma allocated_unsubscribe: "allocated w \<Longrightarrow> allocated (unsubscribe r w)"
  by (auto simp: allocated_def unsubscribe_eq split: option.splits)

lemma keeps_sig_get: "s < next_signal w \<Longrightarrow> keeps w (snd (sig_get s w))"
proof -
  assume "s < next_signal w"
  then have "allocated w \<Longrightarrow> allocated (trackDependency a (SigKey s) w)" for a
    by (auto simp: allocated_def trackDependency_eq)
  then show ?thesis
    by (auto simp: keeps_def sig_get_def consistent_track split: option.splits)
qed

lemma keeps_ensure:
  assumes "consistent w" "allocated w" "ensurePropSignalFor p key w = (sig, v)"
  shows "consistent v \<and> allocated v \<and> sig < next_propsig v"
proof (cases "case STATE_PROP_SIGNALS w p of None \<Rightarrow> None | Some m \<Rightarrow> m key")
  case None
  then have v: "v = w\<lparr>STATE_PROP_SIGNALS := (STATE_PROP_SIGNALS w)
                  (p \<mapsto> (case STATE_PROP_SIGNALS w p of None \<Rightarrow> (\<lambda>k. None) | Some m \<Rightarrow> m)(key \<mapsto> next_propsig w)),
                subs := (subs w)(PropSig (next_propsig w) := []),
                next_propsig := Suc (next_propsig w)\<rparr>" and s: "sig = next_propsig w"
    using assms(3) by (auto simp: ensurePropSignalFor_def Let_def split: option.splits)
  have e: "subs w (PropSig (next_propsig w)) = []" using assms(2) by (simp add: allocated_def)
  then have "(subs w)(PropSig (next_propsig w) := []) = subs w" by (simp add: fun_upd_idem)
  then have c: "consistent v" using assms(1) by (simp add: v consistent_def deps_of_def)
  have lt: "STATE_PROP_SIGNALS w q = Some m \<Longrightarrow> m k' = Some j \<Longrightarrow> j < Suc (next_propsig w)" for q m k' j
    using assms(2) unfolding allocated_def by (blast intro: less_SucI)
  have "allocated v" using assms(2) unfolding v allocated_def
    by (auto split: option.splits if_splits intro: lt)
  with c s show ?thesis by (simp add: v)
next
  case (Some x)
  then obtain m where m: "STATE_PROP_SIGNALS w p = Some m" "m key = Some x"
    by (auto split: option.splits)
  then have v: "v = w\<lparr>STATE_PROP_SIGNALS := (STATE_PROP_SIGNALS w)(p \<mapsto> m)\<rparr>" and s: "sig = x"
    using assms(3) by (auto simp: ensurePropSignalFor_def Let_def)
  have "(STATE_PROP_SIGNALS w)(p \<mapsto> m) = STATE_PROP_SIGNALS w" using m by (simp add: fun_upd_idem)
  then have "v = w" by (simp add: v)
  moreover have "x < next_propsig w" using assms(2) m by (auto simp: allocated_def)
  ultimately show ?thesis using assms s by simp
qed

lemma allocated_track_propsig:
  "allocated w \<Longrightarrow> sig < next_propsig w \<Longrightarrow> allocated (trackDependency a (PropSig sig) w)"
  by (auto simp: allocated_def trackDependency_eq)

lemma keeps_handler_get: "keeps w (snd (handler_get p key w))"
  unfolding keeps_def
proof (intro impI, elim conjE)
  assume c: "consistent w" and a: "allocated w"
  obtain sig v where e: "ensurePropSignalFor p key w = (sig, v)"
    by (cases "ensurePropSignalFor p key w")
  note k = keeps_ensure[OF c a e]
  from k have "consistent (trackDependency r (PropSig sig) v) \<and> allocated (trackDependency r (PropSig sig) v)" for r
    by (simp add: consistent_track allocated_track_propsig)
  with c a e show "consistent (snd (handler_get p key w)) \<and> allocated (snd (handler_get p key w))"
    by (auto simp: handler_get_def Let_def split: option.splits pkey.splits)
qed

lemma steady_keeps: "steady keeps"
  unfolding steady_def
proof (intro conjI allI impI)
  fix w :: world and s assume "s < next_signal w"
  then show "keeps w (snd (sig_get s w))" by (rule keeps_sig_get)
next
  fix w p key show "keeps w (snd (handler_get p key w))" by (rule keeps_handler_get)
next
  fix w r show "keeps w (unsubscribe r w)"
    by (simp add: keeps_def consistent_unsubscribe allocated_unsubscribe)
next
  fix a b c assume "keeps a b" "keeps b c" then show "keeps a c"
    by (auto simp: keeps_def)
next
  fix w r w' assume "keeps (push r w) w'" then show "keeps w (pop w')"
    by (auto simp: keeps_def push_def pop_def consistent_def allocated_def deps_of_def)
next
  fix w p key
  show "keeps w (w\<lparr>STATE_PROP_SIGNALS := (STATE_PROP_SIGNALS w)
          (p := map_option (\<lambda>m. m(key := None)) (STATE_PROP_SIGNALS w p))\<rparr>)"
    by (auto simp: keeps_def consistent_def allocated_def deps_of_def split: if_splits)
qed (simp_all add: keeps_def emit_def consistent_def allocated_def deps_of_def)

text \<open>The keys that list a runner are the keys tracked for it since its subscriptions
  were last cleared.\<close>

lemma traced_emit:
  assumes "traced w" "\<not> is_tracked e"
  shows "traced (emit e w)"
proof -
  have ne: "Tracked r k \<noteq> e" for r k using assms(2) by (cases e) auto
  from assms(1) have le: "cleared w r \<le> length (events w)" for r by (simp add: traced_def)
  show ?thesis using assms(1) le ne
    by (auto simp: traced_def emit_def le_SucI)
qed

lemma traced_track:
  assumes "traced w"
  shows "traced (trackDependency a k w)"
proof -
  from assms have le: "cleared w r \<le> length (events w)" for r by (simp add: traced_def)
  show ?thesis using assms le
    by (auto simp: traced_def trackDependency_eq set_add_def le_SucI)
qed

lemma traced_unsubscribe:
  assumes c: "consistent w" and t: "traced w"
  shows "traced (unsubscribe x w)"
proof -
  from t have le: "cleared w r \<le> length (events w)" for r by (simp add: traced_def)
  from t have eq: "(RunnerFn r \<in> set (subs w k)) = (Tracked r k \<in> set (drop (cleared w r) (events w)))"
    for r k by (simp add: traced_def)
  have no: "RunnerFn x \<notin> set (subs (unsubscribe x w) k)" for k
  proof -
    have "consistent (unsubscribe x w)" by (rule consistent_unsubscribe[OF c])
    moreover have "deps_of (unsubscribe x w) x = []"
      by (simp add: deps_of_def unsubscribe_eq split: option.splits)
    ultimately show ?thesis by (simp add: consistent_def)
  qed
  have other: "r \<noteq> x \<Longrightarrow> (RunnerFn r \<in> set (subs (unsubscribe x w) k)) = (RunnerFn r \<in> set (subs w k))"
    for r k by (auto simp: unsubscribe_eq split: option.splits)
  have ev: "events (unsubscribe x w) = events w"
    and cl: "cleared (unsubscribe x w) = (cleared w)(x := length (events w))"
    by (simp_all add: unsubscribe_eq split: option.splits)
  show ?thesis unfolding traced_def
  proof (intro conjI allI)
    fix r show "cleared (unsubscribe x w) r \<le> length (events (unsubscribe x w))"
      using le by (simp add: ev cl)
  next
    fix r k
    show "(RunnerFn r \<in> set (subs (unsubscribe x w) k))
            = (Tracked r k \<in> set (drop (cleared (unsubscribe x w) r) (events (unsubscribe x w))))"
    proof (cases "r = x")
      case True
      then show ?thesis using no by (simp add: ev cl)
    next
      case False
      then show ?thesis using other eq by (simp add: ev cl)
    qed
  qed
qed

lemma tracing_ensure:
  assumes "allocated w" "traced w" "ensurePropSignalFor p key w = (sig, v)"
  shows "traced v"
proof -
  have e: "subs w (PropSig (next_propsig w)) = []" using assms(1) by (simp add: allocated_def)
  then have "(subs w)(PropSig (next_propsig w) := []) = subs w" by (simp add: fun_upd_idem)
  then have "subs v = subs w" and "events v = events w" and "cleared v = cleared w"
    using assms(3) by (auto simp: ensurePropSignalFor_def Let_def split: option.splits)
  with assms(2) show ?thesis by (simp add: traced_def)
qed

lemma tracing_handler_get: "tracing w (snd (handler_get p key w))"
  unfolding tracing_def
proof (intro impI, elim conjE)
  assume c: "consistent w" and a: "allocated w" and t: "traced w"
  from keeps_handler_get[of w p key] c a
  have ca: "consistent (snd (handler_get p key w))" "allocated (snd (handler_get p key w))"
    by (simp_all add: keeps_def)
  obtain sig v where e: "ensurePropSignalFor p key w = (sig, v)"
    by (cases "ensurePropSignalFor p key w")
  have "traced (trackDependency r (PropSig sig) v)" for r
    by (rule traced_track[OF tracing_ensure[OF a t e]])
  with t e have "traced (snd (handler_get p key w))"
    by (auto simp: handler_get_def Let_def split: option.splits pkey.splits)
  with ca show "consistent (snd (handler_get p key w)) \<and> allocated (snd (handler_get p key w)) \<and>
      traced (snd (handler_get p key w))" by simp
qed

lemma tracing_keeps:
  assumes "keeps w w'" "consistent w \<Longrightarrow> allocated w \<Longrightarrow> traced w \<Longrightarrow> traced w'"
  shows "tracing w w'"
  using assms by (auto simp: tracing_def keeps_def)

lemma traced_fields [simp]:
  "traced (w\<lparr>sig_value := f1\<rparr>) = traced w"
  "traced (w\<lparr>eff_cleanup := f2\<rparr>) = traced w"
  "traced (w\<lparr>comp_cleanup := f3\<rparr>) = traced w"
  "traced (w\<lparr>comp_cached := f4\<rparr>) = traced w"
  "traced (w\<lparr>comp_dirty := f5\<rparr>) = traced w"
  "traced (w\<lparr>target := f6\<rparr>) = traced w"
  "traced (w\<lparr>STATE_PROP_SIGNALS := f7\<rparr>) = traced w"
  "traced (w\<lparr>EFFECT_STACK := f8\<rparr>) = traced w"
  by (simp_all add: traced_def)

lemma steady_tracing: "steady tracing"
  unfolding steady_def
proof (intro conjI allI impI)
  fix w show "tracing w w" by (simp add: tracing_def)
next
  fix a b c assume "tracing a b" "tracing b c" then show "tracing a c"
    by (auto simp: tracing_def)
next
  fix w :: world and e assume "\<not> is_tracked e"
  then show "tracing w (emit e w)"
    by (intro tracing_keeps steady_emit[OF steady_keeps] traced_emit)
next
  fix w r show "tracing w (unsubscribe r w)"
    by (intro tracing_keeps steady_unsubscribe[OF steady_keeps] traced_unsubscribe)
next
  fix w :: world and s assume s: "s < next_signal w"
  show "tracing w (snd (sig_get s w))"
  proof (rule tracing_keeps)
    show "keeps w (snd (sig_get s w))" by (rule keeps_sig_get[OF s])
    show "traced w \<Longrightarrow> traced (snd (sig_get s w))"
      by (simp add: sig_get_def traced_track split: option.splits)
  qed
next
  fix w p key show "tracing w (snd (handler_get p key w))" by (rule tracing_handler_get)
next
  fix w f show "tracing w (w\<lparr>sig_value := f\<rparr>)"
    by (rule tracing_keeps[OF steady_sig_value[OF steady_keeps]]) simp
next
  fix w f show "tracing w (w\<lparr>eff_cleanup := f\<rparr>)"
    by (rule tracing_keeps[OF steady_eff_cleanup[OF steady_keeps]]) simp
next
  fix w f show "tracing w (w\<lparr>comp_cleanup := f\<rparr>)"
    by (rule tracing_keeps[OF steady_comp_cleanup[OF steady_keeps]]) simp
next
  fix w f show "tracing w (w\<lparr>comp_cached := f\<rparr>)"
    by (rule tracing_keeps[OF steady_comp_cached[OF steady_keeps]]) simp
next
  fix w f show "tracing w (w\<lparr>comp_dirty := f\<rparr>)"
    by (rule tracing_keeps[OF steady_comp_dirty[OF steady_keeps]]) simp
next
  fix w f show "tracing w (w\<lparr>target := f\<rparr>)"
    by (rule tracing_keeps[OF steady_target[OF steady_keeps]]) simp
next
  fix w p key
  show "tracing w (w\<lparr>STATE_PROP_SIGNALS := (STATE_PROP_SIGNALS w)
          (p := map_option (\<lambda>m. m(key := None)) (STATE_PROP_SIGNALS w p))\<rparr>)"
    by (rule tracing_keeps[OF steady_discard[OF steady_keeps]]) simp
next
  fix w r w' assume t: "tracing (push r w) w'"
  have 1: "consistent (push r w) = consistent w" "allocated (push r w) = allocated w"
    "traced (push r w) = traced w"
    by (simp_all add: push_def consistent_def allocated_def deps_of_def)
  have 2: "consistent (pop w') = consistent w'" "allocated (pop w') = allocated w'"
    "traced (pop w') = traced w'"
    by (simp_all add: pop_def consistent_def allocated_def deps_of_def)
  from t show "tracing w (pop w')" by (simp add: tracing_def 1 2)
qed

lemma steady_clears: "steady clears"
  unfolding steady_def
proof (intro conjI allI impI)
  fix a b c assume "clears a b" "clears b c" then show "clears a c"
    unfolding clears_def by (meson order_trans)
next
  fix w r show "clears w (unsubscribe r w)"
    by (simp add: clears_def unsubscribe_eq split: option.splits)
next
  fix w :: world and s show "clears w (snd (sig_get s w))"
    by (simp add: clears_def sig_get_def trackDependency_eq le_SucI split: option.splits)
next
  fix w p key show "clears w (snd (handler_get p key w))"
    by (simp add: clears_def handler_get_def trackDependency_eq ensurePropSignalFor_def Let_def le_SucI
        split: option.splits pkey.splits prod.splits)
next
  fix w r w' assume "clears (push r w) w'" then show "clears w (pop w')"
    by (simp add: clears_def push_def pop_def)
qed (simp_all add: clears_def emit_def le_SucI)

section \<open>The bound on nested calls\<close>

text \<open>A call that returns within a bound returns the same with every larger bound.\<close>

lemma extendsD: "extends call call' \<Longrightarrow> call f args w = Some x \<Longrightarrow> call' f args w = Some x"
  unfolding extends_def by blast

lemma cif_extends:
  "extends call call' \<Longrightarrow> call_if_function call v w = Some x \<Longrightarrow> call_if_function call' v w = Some x"
  by (cases v) (auto simp: call_if_function_def dest: extendsD)

lemma runner_extends:
  assumes e: "extends call call'" and r: "runner call e w = Some x"
  shows "runner call' e w = Some x"
proof -
  let ?w1 = "unsubscribe (Eff e) w"
  from r obtain r2 w2 where c: "call_if_function call (eff_cleanup ?w1 e) ?w1 = Some (r2, w2)"
    by (auto simp: runner_def Let_def split: option.splits)
  define w3 where "w3 = (case r2 of Exn err \<Rightarrow> emit (ConsoleError [err]) w2 | Normal x \<Rightarrow> w2)"
  let ?w5 = "push (Eff e) (w3\<lparr>eff_cleanup := (eff_cleanup w3)(e := VNull)\<rparr>)"
  from r c obtain y where f: "call (eff_fn ?w5 e) [] ?w5 = Some y"
    by (auto simp: runner_def Let_def w3_def split: option.splits)
  from cif_extends[OF e c] extendsD[OF e f] r c f show ?thesis
    by (simp add: runner_def Let_def w3_def)
qed

lemma dispose_extends:
  assumes e: "extends call call'" and r: "dispose call e w = Some x"
  shows "dispose call' e w = Some x"
proof -
  let ?w1 = "unsubscribe (Eff e) w"
  from r obtain y where c: "call_if_function call (eff_cleanup ?w1 e) ?w1 = Some y"
    by (auto simp: dispose_def Let_def split: option.splits)
  from cif_extends[OF e c] r c show ?thesis by (simp add: dispose_def Let_def)
qed

lemma recompute_extends:
  assumes e: "extends call call'" and r: "recompute call c w = Some x"
  shows "recompute call' c w = Some x"
proof -
  let ?w1 = "unsubscribe (Comp c) w"
  from r obtain r2 w2 where cl: "call_if_function call (comp_cleanup ?w1 c) ?w1 = Some (r2, w2)"
    by (auto simp: recompute_def Let_def split: option.splits)
  let ?w5 = "push (Comp c) (w2\<lparr>comp_cleanup := (comp_cleanup w2)(c := VNull)\<rparr>)"
  from r cl obtain y where f: "call (comp_fn ?w5 c) [] ?w5 = Some y"
    by (auto simp: recompute_def Let_def split: option.splits)
  from cif_extends[OF e cl] extendsD[OF e f] r cl f show ?thesis
    by (simp add: recompute_def Let_def)
qed

lemma getter_extends:
  "extends call call' \<Longrightarrow> getter call c w = Some x \<Longrightarrow> getter call' c w = Some x"
  by (auto simp: getter_def split: if_splits option.splits dest: recompute_extends)

lemma invoke_extends:
  "extends call call' \<Longrightarrow> invoke call fn w = Some x \<Longrightarrow> invoke call' fn w = Some x"
  by (induction call fn w rule: invoke.induct)
     (auto dest: runner_extends recompute_extends extendsD)

lemma notify_extends:
  "extends call call' \<Longrightarrow> notify call arr w = Some x \<Longrightarrow> notify call' arr w = Some x"
proof (induction arr arbitrary: w)
  case Nil
  then show ?case by simp
next
  case (Cons fn arr)
  from Cons.prems(2) obtain y where i: "invoke call fn w = Some y" by (auto split: option.splits)
  from invoke_extends[OF Cons.prems(1) i] i Cons.prems(2) Cons.IH[OF Cons.prems(1)]
  show ?case by (auto split: prod.splits outcome.splits)
qed

lemma notifyGlobal_extends:
  "extends call call' \<Longrightarrow> notifyGlobal call fns args w = Some x \<Longrightarrow>
   notifyGlobal call' fns args w = Some x"
proof (induction fns arbitrary: w)
  case Nil
  then show ?case by simp
next
  case (Cons fn fns)
  from Cons.prems(2) obtain y where i: "call fn args w = Some y" by (auto split: option.splits)
  from extendsD[OF Cons.prems(1) i] i Cons.prems(2) Cons.IH[OF Cons.prems(1)]
  show ?case by (auto split: prod.splits outcome.splits)
qed

lemma sig_set_extends:
  assumes e: "extends call call'" and r: "sig_set call s v w = Some x"
  shows "sig_set call' s v w = Some x"
proof -
  let ?u = "\<lambda>call. (case v of VFun f \<Rightarrow> call f [sig_value w s] w | _ \<Rightarrow> Some (Normal v, w))"
  from r obtain r1 w1 where u: "?u call = Some (r1, w1)"
    by (auto simp: sig_set_def Let_def split: option.splits)
  then have u': "?u call' = Some (r1, w1)" by (cases v) (auto dest: extendsD[OF e])
  show ?thesis
  proof (cases r1)
    case (Exn err)
    with r u u' show ?thesis by (auto simp: sig_set_def Let_def)
  next
    case (Normal nv)
    let ?w2 = "w1\<lparr>sig_value := (sig_value w1)(s := nv)\<rparr>"
    show ?thesis
    proof (cases "sig_value w s = nv")
      case True
      with r u u' Normal show ?thesis by (auto simp: sig_set_def Let_def)
    next
      case False
      with r u Normal obtain z where n: "notify call (subs ?w2 (SigKey s)) ?w2 = Some z"
        by (auto simp: sig_set_def Let_def split: option.splits)
      from notify_extends[OF e n] n r u u' Normal False show ?thesis
        by (auto simp: sig_set_def Let_def)
    qed
  qed
qed

lemma handler_set_extends:
  assumes e: "extends call call'" and r: "handler_set call p key v w = Some x"
  shows "handler_set call' p key v w = Some x"
proof (cases "target_get w p key = v")
  case True
  with r show ?thesis by (simp add: handler_set_def Let_def)
next
  case False
  let ?w1 = "w\<lparr>target := (target w)(p := (target w p)(key \<mapsto> v))\<rparr>"
  from False r obtain r2 w2 where n: "notify call (prop_subs ?w1 p key) ?w1 = Some (r2, w2)"
    by (auto simp: handler_set_def Let_def split: option.splits)
  with False r obtain z where
    g: "notifyGlobal call (globalSubs w2 p) [key_val key, target_get w p key, v] w2 = Some z"
    by (auto simp: handler_set_def Let_def split: option.splits)
  from notify_extends[OF e n] notifyGlobal_extends[OF e g] n g r False show ?thesis
    by (simp add: handler_set_def Let_def)
qed

lemma handler_deleteProperty_extends:
  assumes e: "extends call call'" and r: "handler_deleteProperty call p key w = Some x"
  shows "handler_deleteProperty call' p key w = Some x"
proof (cases "has_property w p key")
  case False
  with r show ?thesis by (simp add: handler_deleteProperty_def Let_def)
next
  case True
  let ?w1 = "w\<lparr>target := (target w)(p := (target w p)(key := None))\<rparr>"
  from True r obtain r2 w2 where n: "notify call (prop_subs ?w1 p key) ?w1 = Some (r2, w2)"
    by (auto simp: handler_deleteProperty_def Let_def split: option.splits)
  let ?w3 = "w2\<lparr>STATE_PROP_SIGNALS := (STATE_PROP_SIGNALS w2)
                  (p := map_option (\<lambda>m. m(key := None)) (STATE_PROP_SIGNALS w2 p))\<rparr>"
  from n True r obtain z where
    g: "notifyGlobal call (globalSubs ?w3 p) [key_val key, target_get w p key, VUndef] ?w3 = Some z"
    by (auto simp: handler_deleteProperty_def Let_def split: option.splits)
  from notify_extends[OF e n] notifyGlobal_extends[OF e g] n g r True show ?thesis
    by (simp add: handler_deleteProperty_def Let_def)
qed

lemma run_extends:
  assumes e: "extends call call'"
  shows "run call q w = Some x \<Longrightarrow> run call' q w = Some x"
proof (induction q arbitrary: w)
  case (SigSet s v k)
  then show ?case
    by (auto split: if_splits option.splits prod.splits outcome.splits dest!: sig_set_extends[OF e])
next
  case (CompGet c k)
  then show ?case
    by (auto split: if_splits option.splits prod.splits outcome.splits dest!: getter_extends[OF e])
next
  case (PropSet p key v q)
  then show ?case
    by (auto split: if_splits option.splits prod.splits outcome.splits dest!: handler_set_extends[OF e])
next
  case (PropDel p key q)
  then show ?case
    by (auto split: if_splits option.splits prod.splits outcome.splits
        dest!: handler_deleteProperty_extends[OF e])
next
  case (Dispose e' q)
  then show ?case
    by (auto split: if_splits option.splits prod.splits outcome.splits dest!: dispose_extends[OF e])
qed (auto split: if_splits prod.splits)

lemma user_extends: "extends (user \<Pi> n) (user \<Pi> (Suc n))"
proof (induction n)
  case 0
  show ?case by (simp add: extends_def)
next
  case (Suc n)
  show ?case unfolding extends_def
  proof (intro allI impI)
    fix f args w x
    assume "user \<Pi> (Suc n) f args w = Some x"
    then have "run (user \<Pi> n) (\<Pi> f args) (emit (Enter f args) w) = Some x" by simp
    from run_extends[OF Suc.IH this] show "user \<Pi> (Suc (Suc n)) f args w = Some x" by simp
  qed
qed

lemma user_mono:
  "n \<le> m \<Longrightarrow> user \<Pi> n f args w = Some x \<Longrightarrow> user \<Pi> m f args w = Some x"
proof (induction m)
  case 0
  then show ?case by simp
next
  case (Suc m)
  show ?case
  proof (cases "n = Suc m")
    case True
    with Suc.prems show ?thesis by simp
  next
    case False
    with Suc.prems have "user \<Pi> m f args w = Some x" by (auto intro: Suc.IH)
    then show ?thesis by (rule extendsD[OF user_extends])
  qed
qed

section \<open>Dependencies and subscribers after a run\<close>

lemma unsubscribe_idem: "unsubscribe r (unsubscribe r w) = unsubscribe r w"
proof -
  have "EFFECT_DEPS (unsubscribe r w) r = None"
    and "cleared (unsubscribe r w) r = length (events (unsubscribe r w))"
    by (simp_all add: unsubscribe_eq split: option.splits)
  then show ?thesis by (simp add: unsubscribe_def[of r "unsubscribe r w"] fun_upd_idem)
qed

lemma invoke_unsubscribe:
  "invoke call (RunnerFn r) (unsubscribe r w) = invoke call (RunnerFn r) w"
  by (cases r) (simp_all add: runner_def recompute_def unsubscribe_idem)

lemma unsubscribed_nowhere:
  assumes "consistent w"
  shows "RunnerFn r \<notin> set (subs (unsubscribe r w) k)"
proof -
  have "consistent (unsubscribe r w)" by (rule consistent_unsubscribe[OF assms])
  moreover have "deps_of (unsubscribe r w) r = []"
    by (simp add: deps_of_def unsubscribe_eq split: option.splits)
  ultimately show ?thesis by (simp add: consistent_def)
qed

lemma consistent_reader_start: "consistent reader_start \<and> allocated reader_start"
  by (simp add: reader_start_def new_effect_def createSignal_def init_def consistent_def
      allocated_def deps_of_def Let_def)

lemma traced_reader_start: "traced reader_start"
  by (simp add: reader_start_def new_effect_def createSignal_def init_def traced_def Let_def)

lemma cleared_reader: "cleared reader_start (Eff 0) = 0 \<and> events reader_start = []"
  by (simp add: reader_start_def new_effect_def createSignal_def init_def Let_def)

text \<open>
  Claim C4, as amended. Let a runner execute (an effect's run or a computed's recompute,
  as \<open>invoke\<close> of the runner) from a state in which the two tables agree and the keys
  that list a runner are those tracked for it since its subscriptions were last cleared, as
  in every state that can be reached (\<open>reachable_sound\<close> at the end), and let the
  execution return. Then the tables agree after it. The subscriptions of the runner were
  last cleared during this execution (at its start, or later if the runner was run again or
  disposed while it was executing), and the keys that list the runner afterwards are
  exactly the keys it read since then. So every key that lists the runner was read by it
  during this execution: no key read only in an earlier run retains it. And when the
  subscriptions were not cleared again after the start of the execution, every key read
  during the execution lists the runner.
\<close>

theorem C4_dependencies_consistent:
  assumes c: "consistent w" and a: "allocated w" and t: "traced w"
    and run: "invoke (user \<Pi> n) (RunnerFn r) w = Some (res, w')"
  shows "consistent w' \<and>
         length (events w) \<le> cleared w' r \<and> cleared w' r \<le> length (events w') \<and>
         (\<forall>k. (RunnerFn r \<in> set (subs w' k)) = (Tracked r k \<in> set (drop (cleared w' r) (events w')))) \<and>
         (\<forall>k. RunnerFn r \<in> set (subs w' k) \<longrightarrow>
              Tracked r k \<in> set (drop (length (events w)) (events w'))) \<and>
         (cleared w' r = length (events w) \<longrightarrow>
            (\<forall>k. Tracked r k \<in> set (drop (length (events w)) (events w')) \<longrightarrow>
                 RunnerFn r \<in> set (subs w' k)))"
proof -
  have "tracing w w'" by (rule invoke_obeys[OF steady_tracing user_obeys[OF steady_tracing] run])
  with c a t have c': "consistent w'" and t': "traced w'" by (simp_all add: tracing_def)
  let ?u = "unsubscribe r w"
  have ev: "events ?u = events w" and cl: "cleared ?u r = length (events w)"
    by (simp_all add: unsubscribe_eq split: option.splits)
  from run have "invoke (user \<Pi> n) (RunnerFn r) ?u = Some (res, w')"
    by (simp add: invoke_unsubscribe)
  then have "clears ?u w'"
    by (rule invoke_obeys[OF steady_clears user_obeys[OF steady_clears]])
  then have "cleared ?u r \<le> length (events ?u) \<longrightarrow>
               cleared ?u r \<le> cleared w' r \<and> cleared w' r \<le> length (events w')"
    unfolding clears_def by blast
  then have lo: "length (events w) \<le> cleared w' r" and hi: "cleared w' r \<le> length (events w')"
    by (simp_all add: ev cl)
  from t' have eq: "(RunnerFn r \<in> set (subs w' k)) = (Tracked r k \<in> set (drop (cleared w' r) (events w')))"
    for k by (simp add: traced_def)
  have sub: "set (drop (cleared w' r) (events w')) \<subseteq> set (drop (length (events w)) (events w'))"
    using lo by (rule set_drop_subset_set_drop)
  from c' lo hi eq sub show ?thesis by auto
qed

text \<open>
  The theorem at the initial run of \<^verbatim>\<open>createEffect(() => { s(); })\<close>: the run returns,
  the subscriptions of the effect were cleared at its start and not again, the signal was
  read in the run, and the theorem gives that the signal lists the effect.
\<close>

theorem C4_dependencies_consistent_witness:
  "invoke (user reader_prog 1) (RunnerFn (Eff 0)) reader_start \<noteq> None \<and>
   drop (length (events reader_start))
     (events (snd (the (invoke (user reader_prog 1) (RunnerFn (Eff 0)) reader_start))))
     = [Enter 0 [], Tracked (Eff 0) (SigKey 0)] \<and>
   cleared (snd (the (invoke (user reader_prog 1) (RunnerFn (Eff 0)) reader_start))) (Eff 0)
     = length (events reader_start) \<and>
   RunnerFn (Eff 0)
     \<in> set (subs (snd (the (invoke (user reader_prog 1) (RunnerFn (Eff 0)) reader_start))) (SigKey 0)) \<and>
   consistent (snd (the (invoke (user reader_prog 1) (RunnerFn (Eff 0)) reader_start)))"
proof -
  let ?x = "invoke (user reader_prog 1) (RunnerFn (Eff 0)) reader_start"
  have ne: "?x \<noteq> None" by code_simp
  then obtain res w' where r: "?x = Some (res, w')" by auto
  have ev: "drop (length (events reader_start)) (events (snd (the ?x)))
              = [Enter 0 [], Tracked (Eff 0) (SigKey 0)]" by code_simp
  have cl: "cleared (snd (the ?x)) (Eff 0) = length (events reader_start)" by code_simp
  note t = C4_dependencies_consistent[OF consistent_reader_start[THEN conjunct1]
      consistent_reader_start[THEN conjunct2] traced_reader_start r]
  from t have c: "consistent w'" by simp
  from ev r have "Tracked (Eff 0) (SigKey 0) \<in> set (drop (length (events reader_start)) (events w'))"
    by simp
  with t cl r have m: "RunnerFn (Eff 0) \<in> set (subs w' (SigKey 0))" by simp
  from ne ev cl m c r show ?thesis by simp
qed

text \<open>
  Claim C4 as stated fails. In the initial run of
  \<^verbatim>\<open>createEffect(() => { if (flag() === 0) { a(); setFlag(1); } })\<close> the runner reads
  \<^verbatim>\<open>flag\<close> and \<^verbatim>\<open>a\<close>; \<^verbatim>\<open>setFlag(1)\<close> then calls the runner again, which removes it
  from both subscriber sets and reads \<^verbatim>\<open>flag\<close> only. When the initial run returns,
  \<^verbatim>\<open>a\<close> (signal 1) was read during that run and does not list the runner. The
  subscriptions of the runner were last cleared at event number 3, not at the start.
\<close>

theorem C4_counterexample:
  "createEffect (user reenter_prog 2) (VFun 0) reenter_start \<noteq> None \<and>
   events reenter_done =
     [Enter 0 [], Tracked (Eff 0) (SigKey 0), Tracked (Eff 0) (SigKey 1),
      Enter 0 [], Tracked (Eff 0) (SigKey 0)] \<and>
   subs reenter_done (SigKey 1) = [] \<and>
   subs reenter_done (SigKey 0) = [RunnerFn (Eff 0)] \<and>
   cleared reenter_done (Eff 0) = 3"
  by code_simp

section \<open>Computed values\<close>

lemma getter_clean:
  "comp_dirty w c = False \<Longrightarrow> getter call c w = Some (Normal (comp_cached w c), w)"
  by (simp add: getter_def)

lemma getter_times_clean:
  "comp_dirty w c = False \<Longrightarrow>
   getter_times call c N w = Some (replicate N (Normal (comp_cached w c)), w)"
  by (induction N) (simp_all add: getter_clean)

lemma recompute_normal:
  assumes cl: "call_if_function call (comp_cleanup (unsubscribe (Comp c) w) c) (unsubscribe (Comp c) w)
                 = Some (r2, w2)"
    and fn: "call (comp_fn w2 c) [] (push (Comp c) (w2\<lparr>comp_cleanup := (comp_cleanup w2)(c := VNull)\<rparr>))
                 = Some (Normal v, w6)"
  shows "recompute call c w =
           Some (Normal VUndef,
             pop ((if is_function v
                   then w6\<lparr>comp_cleanup := (comp_cleanup w6)(c := v)\<rparr>
                   else w6\<lparr>comp_cached := (comp_cached w6)(c := v)\<rparr>)
                  \<lparr>comp_dirty := (comp_dirty w6)(c := False)\<rparr>))"
  using cl fn by (simp add: recompute_def Let_def push_def)

text \<open>
  Claim C1 fails on the code, against the comment of \<^verbatim>\<open>createComputed\<close> ("when
  dependencies change it marks dirty; the next call recomputes"). The subscriber that a
  signal holds for a computed is \<^verbatim>\<open>recompute\<close> itself, and nothing sets \<^verbatim>\<open>dirty\<close> back to
  true. With \<^verbatim>\<open>n = 2\<close> and \<^verbatim>\<open>c = createComputed(() => n() * 2)\<close>: \<^verbatim>\<open>fn\<close> has run once
  after creation; \<^verbatim>\<open>setN(5)\<close> alone runs it a second time and caches 10; the getter called
  next returns 10 and does not run \<^verbatim>\<open>fn\<close>.
\<close>

theorem C1_recompute_at_notification:
  "createComputed (user double_prog 1) (VFun 0) double_start \<noteq> None \<and>
   invocations 0 double_created = 1 \<and>
   sig_set (user double_prog 1) 0 (VNum 5) double_created \<noteq> None \<and>
   invocations 0 (snd (the (sig_set (user double_prog 1) 0 (VNum 5) double_created))) = 2 \<and>
   comp_cached (snd (the (sig_set (user double_prog 1) 0 (VNum 5) double_created))) 0 = VNum 10 \<and>
   map_option fst
     (getter (user double_prog 1) 0 (snd (the (sig_set (user double_prog 1) 0 (VNum 5) double_created))))
     = Some (Normal (VNum 10)) \<and>
   invocations 0
     (snd (the (getter (user double_prog 1) 0
        (snd (the (sig_set (user double_prog 1) 0 (VNum 5) double_created))))))
     = 2"
  by code_simp

lemma double_scenario:
  "map_option fst (getter_times (user double_prog 1) 0 2 double_created)
     = Some [Normal (VNum 4), Normal (VNum 4)] \<and>
   map_option fst (sig_set (user double_prog 1) 0 (VNum 5) double_read) = Some (Normal (VNum 5)) \<and>
   map_option fst (getter (user double_prog 1) 0 double_set) = Some (Normal (VNum 10)) \<and>
   invocations 0 (snd (the (getter (user double_prog 1) 0 double_set))) = 2"
  by code_simp

text \<open>
  Claim C2, as amended. Take any compute of a computed (the initial one of
  \<^verbatim>\<open>createComputed\<close> or a later one) in which the call of \<^verbatim>\<open>fn\<close> returns without
  throwing. Then the compute returns, it adds no event after \<^verbatim>\<open>fn\<close> has returned,
  \<^verbatim>\<open>dirty\<close> is false, and \<open>N\<close> calls of the getter with nothing in between return the
  cached value \<open>N\<close> times and leave the state as it is: \<^verbatim>\<open>fn\<close> is not called again. In
  the scenario \<^verbatim>\<open>c(); c(); setN(5); c()\<close> the values are 4, 4, 10 and \<^verbatim>\<open>fn\<close> has been
  called twice in all.
\<close>

theorem C2_caching:
  assumes cl: "call_if_function call (comp_cleanup (unsubscribe (Comp c) w) c) (unsubscribe (Comp c) w)
                 = Some (r2, w2)"
    and fn: "call (comp_fn w2 c) [] (push (Comp c) (w2\<lparr>comp_cleanup := (comp_cleanup w2)(c := VNull)\<rparr>))
                 = Some (Normal v, w6)"
  shows "(\<exists>w'. recompute call c w = Some (Normal VUndef, w') \<and>
               events w' = events w6 \<and>
               comp_dirty w' c = False \<and>
               getter_times call c N w' = Some (replicate N (Normal (comp_cached w' c)), w')) \<and>
         map_option fst (getter_times (user double_prog 1) 0 2 double_created)
           = Some [Normal (VNum 4), Normal (VNum 4)] \<and>
         map_option fst (sig_set (user double_prog 1) 0 (VNum 5) double_read) = Some (Normal (VNum 5)) \<and>
         map_option fst (getter (user double_prog 1) 0 double_set) = Some (Normal (VNum 10)) \<and>
         invocations 0 (snd (the (getter (user double_prog 1) 0 double_set))) = 2"
proof -
  let ?w' = "pop ((if is_function v
                   then w6\<lparr>comp_cleanup := (comp_cleanup w6)(c := v)\<rparr>
                   else w6\<lparr>comp_cached := (comp_cached w6)(c := v)\<rparr>)
                  \<lparr>comp_dirty := (comp_dirty w6)(c := False)\<rparr>)"
  have r: "recompute call c w = Some (Normal VUndef, ?w')" by (rule recompute_normal[OF cl fn])
  have e: "events ?w' = events w6" by (simp add: pop_def)
  have d: "comp_dirty ?w' c = False" by (simp add: pop_def)
  have g: "getter_times call c N ?w' = Some (replicate N (Normal (comp_cached ?w' c)), ?w')"
    by (rule getter_times_clean[OF d])
  from r e d g have "\<exists>w'. recompute call c w = Some (Normal VUndef, w') \<and>
               events w' = events w6 \<and>
               comp_dirty w' c = False \<and>
               getter_times call c N w' = Some (replicate N (Normal (comp_cached w' c)), w')"
    by blast
  with double_scenario show ?thesis by simp
qed

text \<open>The theorem at the initial compute of \<^verbatim>\<open>createComputed(() => n() * 2)\<close> with
  \<^verbatim>\<open>n = 2\<close>, and three calls of the getter.\<close>

theorem C2_caching_witness:
  "map_option fst
     (user double_prog 1 0 []
        (push (Comp 0) ((unsubscribe (Comp 0) (snd (new_computed 0 double_start)))
           \<lparr>comp_cleanup := (comp_cleanup (unsubscribe (Comp 0) (snd (new_computed 0 double_start))))
              (0 := VNull)\<rparr>)))
     = Some (Normal (VNum 4)) \<and>
   map_option fst
     (getter_times (user double_prog 1) 0 3
        (snd (the (recompute (user double_prog 1) 0 (snd (new_computed 0 double_start))))))
     = Some [Normal (VNum 4), Normal (VNum 4), Normal (VNum 4)]"
proof -
  let ?w = "snd (new_computed 0 double_start)"
  let ?u = "unsubscribe (Comp 0) ?w"
  let ?call = "user double_prog 1"
  let ?x = "?call 0 [] (push (Comp 0) (?u\<lparr>comp_cleanup := (comp_cleanup ?u)(0 := VNull)\<rparr>))"
  have c0: "comp_cleanup ?u 0 = VNull" by code_simp
  have cl: "call_if_function ?call (comp_cleanup ?u 0) ?u = Some (Normal VUndef, ?u)"
    by (simp add: c0 call_if_function_def)
  have f0: "comp_fn ?u 0 = 0" by code_simp
  have x: "map_option fst ?x = Some (Normal (VNum 4))" by code_simp
  then obtain w6 where fn: "?x = Some (Normal (VNum 4), w6)" by auto
  from C2_caching[of ?call 0 ?w "Normal VUndef" ?u "VNum 4" w6 3, OF cl] fn f0
  obtain w' where r: "recompute ?call 0 ?w = Some (Normal VUndef, w')"
    and g: "getter_times ?call 0 3 w' = Some (replicate 3 (Normal (comp_cached w' 0)), w')"
    by auto
  have "comp_cached (snd (the (recompute ?call 0 ?w))) 0 = VNum 4" by code_simp
  with r g have "map_option fst (getter_times ?call 0 3 (snd (the (recompute ?call 0 ?w))))
        = Some [Normal (VNum 4), Normal (VNum 4), Normal (VNum 4)]"
    by (simp add: numeral_3_eq_3)
  with x show ?thesis by simp
qed

text \<open>
  Claim C2 as stated fails for a function that throws in the initial compute:
  \<^verbatim>\<open>recompute\<close> then skips \<^verbatim>\<open>dirty = false\<close>, so \<^verbatim>\<open>dirty\<close> is still true as at
  creation. With \<^verbatim>\<open>c = createComputed(() => { throw 'boom'; })\<close> the function has run
  once after creation, and after \<^verbatim>\<open>c(); c();\<close> with no dependency change it has run
  three times.
\<close>

theorem C2_counterexample:
  "createComputed (user throw_prog 1) (VFun 0) init \<noteq> None \<and>
   invocations 0 throw_created = 1 \<and>
   map_option fst (getter_times (user throw_prog 1) 0 2 throw_created)
     = Some [Normal VUndef, Normal VUndef] \<and>
   invocations 0 (snd (the (getter_times (user throw_prog 1) 0 2 throw_created))) = 3"
  by code_simp

lemma cleanup_scenario:
  "map_option fst (getter (user cleanup_prog 1) 0 cleanup_created) = Some (Normal VUndef) \<and>
   drop (length (events cleanup_created))
     (events (snd (the (sig_set (user cleanup_prog 1) 0 (VNum 1) cleanup_created))))
     = [Enter 1 [], Logged (VStr ''cleanup''), Enter 0 [], Tracked (Comp 0) (SigKey 0)] \<and>
   map_option fst
     (getter (user cleanup_prog 1) 0
        (snd (the (sig_set (user cleanup_prog 1) 0 (VNum 1) cleanup_created))))
     = Some (Normal VUndef)"
  by code_simp

text \<open>
  Claim C10. Take any compute of a computed in which the call of \<^verbatim>\<open>fn\<close> returns a
  function \<open>g\<close>. The compute stores \<open>g\<close> as the cleanup (whatever the cleanup was
  before) and does not write the cache: the cached value is the one in the state in which
  \<^verbatim>\<open>fn\<close> returned, and the getter returns it. The next compute starts by calling \<open>g\<close>.
  In the scenario \<^verbatim>\<open>createComputed(() => { s(); return () => log.push('cleanup'); })\<close>
  the getter returns \<^verbatim>\<open>undefined\<close>; \<^verbatim>\<open>setS(1)\<close> calls the cleanup, then \<^verbatim>\<open>fn\<close>; the getter
  still returns \<^verbatim>\<open>undefined\<close>.
\<close>

theorem C10_function_result_is_cleanup:
  assumes cl: "call_if_function call (comp_cleanup (unsubscribe (Comp c) w) c) (unsubscribe (Comp c) w)
                 = Some (r2, w2)"
    and fn: "call (comp_fn w2 c) [] (push (Comp c) (w2\<lparr>comp_cleanup := (comp_cleanup w2)(c := VNull)\<rparr>))
                 = Some (Normal (VFun g), w6)"
  shows "(\<exists>w'. recompute call c w = Some (Normal VUndef, w') \<and>
               comp_cached w' c = comp_cached w6 c \<and>
               comp_cleanup w' c = VFun g \<and>
               getter call c w' = Some (Normal (comp_cached w6 c), w') \<and>
               call_if_function call (comp_cleanup (unsubscribe (Comp c) w') c) (unsubscribe (Comp c) w')
                 = call g [] (unsubscribe (Comp c) w')) \<and>
         map_option fst (getter (user cleanup_prog 1) 0 cleanup_created) = Some (Normal VUndef) \<and>
         drop (length (events cleanup_created))
           (events (snd (the (sig_set (user cleanup_prog 1) 0 (VNum 1) cleanup_created))))
           = [Enter 1 [], Logged (VStr ''cleanup''), Enter 0 [], Tracked (Comp 0) (SigKey 0)] \<and>
         map_option fst
           (getter (user cleanup_prog 1) 0
              (snd (the (sig_set (user cleanup_prog 1) 0 (VNum 1) cleanup_created))))
           = Some (Normal VUndef)"
proof -
  let ?w' = "pop (w6\<lparr>comp_cleanup := (comp_cleanup w6)(c := VFun g),
                     comp_dirty := (comp_dirty w6)(c := False)\<rparr>)"
  have r: "recompute call c w = Some (Normal VUndef, ?w')"
    using recompute_normal[OF cl fn] by simp
  have a: "comp_cached ?w' c = comp_cached w6 c" by (simp add: pop_def)
  have b: "comp_cleanup ?w' c = VFun g" by (simp add: pop_def)
  have d: "comp_dirty ?w' c = False" by (simp add: pop_def)
  have e: "getter call c ?w' = Some (Normal (comp_cached w6 c), ?w')"
    using getter_clean[OF d, of call] a by simp
  have "comp_cleanup (unsubscribe (Comp c) ?w') c = VFun g"
    using b by (simp add: unsubscribe_eq split: option.splits)
  then have f: "call_if_function call (comp_cleanup (unsubscribe (Comp c) ?w') c)
                  (unsubscribe (Comp c) ?w') = call g [] (unsubscribe (Comp c) ?w')"
    by (simp add: call_if_function_def)
  from r a b e f have "\<exists>w'. recompute call c w = Some (Normal VUndef, w') \<and>
               comp_cached w' c = comp_cached w6 c \<and>
               comp_cleanup w' c = VFun g \<and>
               getter call c w' = Some (Normal (comp_cached w6 c), w') \<and>
               call_if_function call (comp_cleanup (unsubscribe (Comp c) w') c) (unsubscribe (Comp c) w')
                 = call g [] (unsubscribe (Comp c) w')"
    by blast
  with cleanup_scenario show ?thesis by simp
qed

text \<open>The theorem at the initial compute of
  \<^verbatim>\<open>createComputed(() => { s(); return () => log.push('cleanup'); })\<close>.\<close>

theorem C10_function_result_is_cleanup_witness:
  "map_option fst
     (user cleanup_prog 1 0 []
        (push (Comp 0) ((unsubscribe (Comp 0) cleanup_start)
           \<lparr>comp_cleanup := (comp_cleanup (unsubscribe (Comp 0) cleanup_start))(0 := VNull)\<rparr>)))
     = Some (Normal (VFun 1)) \<and>
   comp_cleanup (snd (the (recompute (user cleanup_prog 1) 0 cleanup_start))) 0 = VFun 1 \<and>
   comp_cached (snd (the (recompute (user cleanup_prog 1) 0 cleanup_start))) 0 = VUndef"
proof -
  let ?w = "cleanup_start"
  let ?u = "unsubscribe (Comp 0) ?w"
  let ?call = "user cleanup_prog 1"
  let ?x = "?call 0 [] (push (Comp 0) (?u\<lparr>comp_cleanup := (comp_cleanup ?u)(0 := VNull)\<rparr>))"
  have c0: "comp_cleanup ?u 0 = VNull" by code_simp
  have cl: "call_if_function ?call (comp_cleanup ?u 0) ?u = Some (Normal VUndef, ?u)"
    by (simp add: c0 call_if_function_def)
  have f0: "comp_fn ?u 0 = 0" by code_simp
  have x: "map_option fst ?x = Some (Normal (VFun 1))" by code_simp
  then obtain w6 where fn: "?x = Some (Normal (VFun 1), w6)" by auto
  then have w6: "w6 = snd (the ?x)" by simp
  from C10_function_result_is_cleanup[of ?call 0 ?w "Normal VUndef" ?u 1 w6, OF cl] fn f0
  obtain w' where r: "recompute ?call 0 ?w = Some (Normal VUndef, w')"
    and a: "comp_cached w' 0 = comp_cached w6 0" and b: "comp_cleanup w' 0 = VFun 1"
    by auto
  have "comp_cached (snd (the ?x)) 0 = VUndef" by code_simp
  with r a b w6 x show ?thesis by simp
qed

section \<open>Effects\<close>

lemma user_frame: "user \<Pi> n f args w = Some (r, w') \<Longrightarrow> frame w w'"
  by (rule obeysD[OF user_obeys[OF steady_frame]])

lemma user_enter:
  assumes "user \<Pi> n f args w = Some (r, w')"
  shows "\<exists>es. events w' = events w @ Enter f args # es"
proof (cases n)
  case 0
  with assms show ?thesis by simp
next
  case (Suc m)
  with assms have "run (user \<Pi> m) (\<Pi> f args) (emit (Enter f args) w) = Some (r, w')" by simp
  then have "frame (emit (Enter f args) w) w'"
    by (rule run_obeys[OF steady_frame user_obeys[OF steady_frame]])
  then show ?thesis by (auto simp: frame_def emit_def)
qed

lemma unsubscribe_fields:
  "EFFECT_STACK (unsubscribe r w) = EFFECT_STACK w"
  "events (unsubscribe r w) = events w"
  "eff_cleanup (unsubscribe r w) = eff_cleanup w"
  "eff_fn (unsubscribe r w) = eff_fn w"
  "comp_cleanup (unsubscribe r w) = comp_cleanup w"
  "comp_fn (unsubscribe r w) = comp_fn w"
  "EFFECT_DEPS (unsubscribe r w) r = None"
  by (simp_all add: unsubscribe_eq split: option.splits)

lemma unsubscribe_removes:
  "k \<in> set (deps_of w r) \<Longrightarrow> RunnerFn r \<notin> set (subs (unsubscribe r w) k)"
  by (auto simp: unsubscribe_eq deps_of_def split: option.splits)

lemma effect_scenario:
  "map_option fst (sig_set (user effect_prog 1) 0 (VNum 1) effect_created) = Some (Normal (VNum 1)) \<and>
   drop (length (events effect_created)) (events effect_set)
     = [Enter 1 [], Logged (VStr ''cleanup''), Enter 0 [], Tracked (Eff 0) (SigKey 0), Logged (VNum 1)] \<and>
   map_option fst (sig_set (user faulty_prog 1) 0 (VNum 1) faulty_created) = Some (Normal (VNum 1)) \<and>
   drop (length (events faulty_created)) (events faulty_set)
     = [Enter 1 [], ConsoleError [VStr ''cleanup failed''], Enter 0 [],
        Tracked (Eff 0) (SigKey 0), ConsoleError [VStr ''createEffect error'', VStr ''fn failed'']] \<and>
   EFFECT_STACK faulty_set = [] \<and>
   eff_cleanup faulty_set 0 = VNull \<and>
   subs faulty_set (SigKey 0) = [RunnerFn (Eff 0)]"
  by code_simp

text \<open>
  Claim C3. Let the two calls of user code in a run of an effect's runner return: the call
  of the stored cleanup (made only if it is a function), in the state in which the runner
  has been deleted from the subscriber set of every key of its dependency set and the
  dependency set has been deleted; and the call of \<^verbatim>\<open>fn\<close>, in the state in which what the
  cleanup threw has been written to \<^verbatim>\<open>console.error\<close>, the stored cleanup has been
  cleared and the runner has been pushed. Then the run returns, and never with an
  exception. \<^verbatim>\<open>fn\<close> returns with the runner on top of the stack it was pushed on, and
  the runner is popped whether \<^verbatim>\<open>fn\<close> returned or threw. An error thrown by the cleanup
  is the next event after the cleanup, an error thrown by \<^verbatim>\<open>fn\<close> is the last event of
  the run, both as \<^verbatim>\<open>console.error\<close>; what \<^verbatim>\<open>fn\<close> returned is the next cleanup if it
  is a function. When a cleanup was stored, the first thing the run does with user code is
  to call it, and \<^verbatim>\<open>fn\<close> is called after. In the two scenarios \<^verbatim>\<open>setS(1)\<close> returns 1
  and the events of the run are: the cleanup, then \<^verbatim>\<open>fn\<close> with its read; with the
  throwing cleanup and \<^verbatim>\<open>fn\<close>, each followed by its error report, and the stack is empty
  afterwards.
\<close>

theorem C3_effect_run:
  assumes cl: "call_if_function (user \<Pi> n) (eff_cleanup w e) (unsubscribe (Eff e) w) = Some (r2, w2)"
    and w3: "w3 = (case r2 of Exn err \<Rightarrow> emit (ConsoleError [err]) w2 | Normal x \<Rightarrow> w2)"
    and fn: "user \<Pi> n (eff_fn w e) [] (push (Eff e) (w3\<lparr>eff_cleanup := (eff_cleanup w3)(e := VNull)\<rparr>))
               = Some (r6, w6)"
    and w': "w' = pop (case r6 of
                         Normal m \<Rightarrow> (if is_function m
                                       then w6\<lparr>eff_cleanup := (eff_cleanup w6)(e := m)\<rparr> else w6)
                       | Exn err \<Rightarrow> emit (ConsoleError [VStr ''createEffect error'', err]) w6)"
  shows "runner (user \<Pi> n) e w = Some (Normal VUndef, w') \<and>
         (\<forall>k \<in> set (deps_of w (Eff e)). RunnerFn (Eff e) \<notin> set (subs (unsubscribe (Eff e) w) k)) \<and>
         EFFECT_DEPS (unsubscribe (Eff e) w) (Eff e) = None \<and>
         EFFECT_STACK w6 = EFFECT_STACK w @ [Eff e] \<and>
         EFFECT_STACK w' = EFFECT_STACK w \<and>
         (\<forall>err. r2 = Exn err \<longrightarrow> events w3 = events w2 @ [ConsoleError [err]]) \<and>
         (\<forall>err. r6 = Exn err \<longrightarrow>
              events w' = events w6 @ [ConsoleError [VStr ''createEffect error'', err]]) \<and>
         (\<forall>m. r6 = Normal m \<longrightarrow> eff_cleanup w' e = (if is_function m then m else eff_cleanup w6 e)) \<and>
         (\<forall>c. eff_cleanup w e = VFun c \<longrightarrow>
              (\<exists>es. events w' = events w @ Enter c [] # es \<and> Enter (eff_fn w e) [] \<in> set es)) \<and>
         drop (length (events effect_created)) (events effect_set)
           = [Enter 1 [], Logged (VStr ''cleanup''), Enter 0 [], Tracked (Eff 0) (SigKey 0),
              Logged (VNum 1)] \<and>
         map_option fst (sig_set (user faulty_prog 1) 0 (VNum 1) faulty_created)
           = Some (Normal (VNum 1)) \<and>
         drop (length (events faulty_created)) (events faulty_set)
           = [Enter 1 [], ConsoleError [VStr ''cleanup failed''], Enter 0 [],
              Tracked (Eff 0) (SigKey 0), ConsoleError [VStr ''createEffect error'', VStr ''fn failed'']] \<and>
         EFFECT_STACK faulty_set = []"
proof -
  let ?call = "user \<Pi> n"
  let ?w1 = "unsubscribe (Eff e) w"
  define w4 where "w4 = w3\<lparr>eff_cleanup := (eff_cleanup w3)(e := VNull)\<rparr>"
  define w7 where "w7 = (case r6 of
       Normal m \<Rightarrow> (if is_function m then w6\<lparr>eff_cleanup := (eff_cleanup w6)(e := m)\<rparr> else w6)
     | Exn err \<Rightarrow> emit (ConsoleError [VStr ''createEffect error'', err]) w6)"
  have f12: "frame ?w1 w2"
    by (rule cif_obeys[OF steady_frame user_obeys[OF steady_frame] cl])
  have f24: "frame w2 w4"
    by (cases r2) (auto simp: w4_def w3 frame_def emit_def)
  have fe: "eff_fn (push (Eff e) w4) e = eff_fn w e"
    using f12 f24 by (simp add: frame_def push_def unsubscribe_fields)
  have fn': "?call (eff_fn (push (Eff e) w4) e) [] (push (Eff e) w4) = Some (r6, w6)"
    using fn fe unfolding w4_def by simp
  have run: "runner ?call e w = Some (Normal VUndef, w')"
    using cl fn' unfolding w' w4_def w3
    by (cases r6) (simp_all add: runner_def Let_def unsubscribe_fields)
  have f56: "frame (push (Eff e) w4) w6" using fn unfolding w4_def by (rule user_frame)
  have f67: "frame w6 w7"
    by (cases r6) (auto simp: w7_def frame_def emit_def)
  have w'7: "w' = pop w7" by (simp add: w' w7_def)
  have st4: "EFFECT_STACK w4 = EFFECT_STACK w"
    using f12 f24 by (simp add: frame_def unsubscribe_fields)
  have st6: "EFFECT_STACK w6 = EFFECT_STACK w @ [Eff e]"
    using f56 st4 by (simp add: frame_def push_def)
  have st: "EFFECT_STACK w' = EFFECT_STACK w"
    using f67 st6 by (simp add: w'7 pop_def frame_def)
  have ev: "\<exists>es. events w' = events w @ Enter c [] # es \<and> Enter (eff_fn w e) [] \<in> set es"
    if c: "eff_cleanup w e = VFun c" for c
  proof -
    from cl c have "?call c [] ?w1 = Some (r2, w2)" by (simp add: call_if_function_def)
    from user_enter[OF this] obtain es1 where e1: "events w2 = events w @ Enter c [] # es1"
      by (auto simp: unsubscribe_fields)
    from f24 obtain es2 where e2: "events w4 = events w2 @ es2" by (auto simp: frame_def)
    from user_enter[OF fn] obtain es3 where e3: "events w6 = events w4 @ Enter (eff_fn w e) [] # es3"
      by (auto simp: push_def w4_def)
    from f67 obtain es4 where e4: "events w7 = events w6 @ es4" by (auto simp: frame_def)
    have "events w' = events w @ Enter c [] # (es1 @ es2 @ Enter (eff_fn w e) [] # es3 @ es4)"
      by (simp add: w'7 pop_def e1 e2 e3 e4)
    then show ?thesis by auto
  qed
  have d: "\<forall>k \<in> set (deps_of w (Eff e)). RunnerFn (Eff e) \<notin> set (subs ?w1 k)"
    by (simp add: unsubscribe_removes)
  have x2: "\<forall>err. r2 = Exn err \<longrightarrow> events w3 = events w2 @ [ConsoleError [err]]"
    by (simp add: w3 emit_def)
  have x6: "\<forall>err. r6 = Exn err \<longrightarrow>
              events w' = events w6 @ [ConsoleError [VStr ''createEffect error'', err]]"
    by (simp add: w' pop_def emit_def)
  have cu: "\<forall>m. r6 = Normal m \<longrightarrow> eff_cleanup w' e = (if is_function m then m else eff_cleanup w6 e)"
    by (simp add: w' pop_def)
  have u: "EFFECT_DEPS ?w1 (Eff e) = None" by (simp add: unsubscribe_fields)
  from effect_scenario
  have sc: "drop (length (events effect_created)) (events effect_set)
           = [Enter 1 [], Logged (VStr ''cleanup''), Enter 0 [], Tracked (Eff 0) (SigKey 0),
              Logged (VNum 1)] \<and>
         map_option fst (sig_set (user faulty_prog 1) 0 (VNum 1) faulty_created)
           = Some (Normal (VNum 1)) \<and>
         drop (length (events faulty_created)) (events faulty_set)
           = [Enter 1 [], ConsoleError [VStr ''cleanup failed''], Enter 0 [],
              Tracked (Eff 0) (SigKey 0), ConsoleError [VStr ''createEffect error'', VStr ''fn failed'']] \<and>
         EFFECT_STACK faulty_set = []"
    by simp
  from run d u st6 st x2 x6 cu ev sc show ?thesis by blast
qed

text \<open>The theorem at the run of the effect whose cleanup and whose \<^verbatim>\<open>fn\<close> both throw:
  the run returns normally, both errors are reported, the stack is as before.\<close>

theorem C3_effect_run_witness:
  "runner (user faulty_prog 1) 0 faulty_stored \<noteq> None \<and>
   fst (the (runner (user faulty_prog 1) 0 faulty_stored)) = Normal VUndef \<and>
   eff_cleanup faulty_stored 0 = VFun 1 \<and>
   eff_fn faulty_stored 0 = 0 \<and>
   fst (the (call_if_function (user faulty_prog 1) (eff_cleanup faulty_stored 0)
              (unsubscribe (Eff 0) faulty_stored))) = Exn (VStr ''cleanup failed'') \<and>
   EFFECT_STACK (snd (the (runner (user faulty_prog 1) 0 faulty_stored))) = EFFECT_STACK faulty_stored \<and>
   drop (length (events faulty_stored)) (events (snd (the (runner (user faulty_prog 1) 0 faulty_stored))))
     = [Enter 1 [], ConsoleError [VStr ''cleanup failed''], Enter 0 [],
        Tracked (Eff 0) (SigKey 0), ConsoleError [VStr ''createEffect error'', VStr ''fn failed'']]"
proof -
  let ?call = "user faulty_prog 1"
  let ?c = "call_if_function ?call (eff_cleanup faulty_stored 0) (unsubscribe (Eff 0) faulty_stored)"
  define r2 where "r2 = fst (the ?c)"
  define w2 where "w2 = snd (the ?c)"
  define w3 where "w3 = (case r2 of Exn err \<Rightarrow> emit (ConsoleError [err]) w2 | Normal x \<Rightarrow> w2)"
  let ?f = "?call (eff_fn faulty_stored 0) []
              (push (Eff 0) (w3\<lparr>eff_cleanup := (eff_cleanup w3)(0 := VNull)\<rparr>))"
  define r6 where "r6 = fst (the ?f)"
  define w6 where "w6 = snd (the ?f)"
  define w' where "w' = pop (case r6 of
                         Normal m \<Rightarrow> (if is_function m
                                       then w6\<lparr>eff_cleanup := (eff_cleanup w6)(0 := m)\<rparr> else w6)
                       | Exn err \<Rightarrow> emit (ConsoleError [VStr ''createEffect error'', err]) w6)"
  have c: "?c \<noteq> None" by code_simp
  then have cl: "?c = Some (r2, w2)" by (auto simp: r2_def w2_def)
  have "?f \<noteq> None" unfolding w3_def r2_def w2_def by code_simp
  then have fn: "?f = Some (r6, w6)" by (auto simp: r6_def w6_def)
  have ne: "runner ?call 0 faulty_stored \<noteq> None" by code_simp
  have k: "eff_cleanup faulty_stored 0 = VFun 1" by code_simp
  have f: "eff_fn faulty_stored 0 = 0" by code_simp
  have x: "fst (the ?c) = Exn (VStr ''cleanup failed'')" by code_simp
  have ev: "drop (length (events faulty_stored)) (events (snd (the (runner ?call 0 faulty_stored))))
     = [Enter 1 [], ConsoleError [VStr ''cleanup failed''], Enter 0 [],
        Tracked (Eff 0) (SigKey 0), ConsoleError [VStr ''createEffect error'', VStr ''fn failed'']]"
    by code_simp
  note t = C3_effect_run[OF cl w3_def fn w'_def]
  from t have r: "runner ?call 0 faulty_stored = Some (Normal VUndef, w')" by simp
  from t have st: "EFFECT_STACK w' = EFFECT_STACK faulty_stored" by simp
  from r st ne k f x ev show ?thesis by simp
qed

section \<open>Signals\<close>

lemma notify_result: "notify call arr w = Some (r, w') \<Longrightarrow> r = Normal VUndef"
  by (induction arr arbitrary: w) (auto split: option.splits outcome.splits)


lemma frame_events: "frame w w' \<Longrightarrow> \<exists>es. events w' = events w @ es"
  by (simp add: frame_def)


lemma fn_of_frame: "frame w w' \<Longrightarrow> fn_of w' fn = fn_of w fn"
  by (cases "(w, fn)" rule: fn_of.cases) (simp_all add: frame_def)

lemma notify_returns:
  assumes "\<forall>fn \<in> set arr. \<forall>u. invoke call fn u \<noteq> None"
  shows "\<exists>w'. notify call arr w = Some (Normal VUndef, w')"
  using assms
proof (induction arr arbitrary: w)
  case Nil
  show ?case by simp
next
  case (Cons fn arr)
  from Cons.prems obtain r1 w1 where i: "invoke call fn w = Some (r1, w1)" by fastforce
  from Cons.prems have "\<forall>fn \<in> set arr. \<forall>u. invoke call fn u \<noteq> None" by simp
  from Cons.IH[OF this] i show ?case by (cases r1) simp_all
qed


lemma runner_enters:
  assumes "runner (user \<Pi> n) e w = Some (r, w')"
  shows "Enter (eff_fn w e) [] \<in> set (drop (length (events w)) (events w'))"
proof -
  let ?call = "user \<Pi> n"
  let ?w1 = "unsubscribe (Eff e) w"
  note fr = steady_frame user_obeys[OF steady_frame]
  from assms obtain r2 w2 where cl: "call_if_function ?call (eff_cleanup ?w1 e) ?w1 = Some (r2, w2)"
    by (auto simp: runner_def Let_def split: option.splits)
  define w3 where "w3 = (case r2 of Exn err \<Rightarrow> emit (ConsoleError [err]) w2 | Normal x \<Rightarrow> w2)"
  define w5 where "w5 = push (Eff e) (w3\<lparr>eff_cleanup := (eff_cleanup w3)(e := VNull)\<rparr>)"
  from assms cl obtain r6 w6 where fn: "?call (eff_fn w5 e) [] w5 = Some (r6, w6)"
    by (auto simp: runner_def Let_def w3_def w5_def split: option.splits)
  define w7 where "w7 = (case r6 of
       Normal m \<Rightarrow> (if is_function m then w6\<lparr>eff_cleanup := (eff_cleanup w6)(e := m)\<rparr> else w6)
     | Exn err \<Rightarrow> emit (ConsoleError [VStr ''createEffect error'', err]) w6)"
  from assms cl fn have w': "w' = pop w7"
    by (auto simp: runner_def Let_def w3_def w5_def w7_def split: option.splits outcome.splits)
  have f12: "frame ?w1 w2" by (rule cif_obeys[OF fr cl])
  then have fe: "eff_fn w5 e = eff_fn w e"
    by (cases r2) (simp_all add: w5_def w3_def frame_def emit_def push_def unsubscribe_fields)
  from f12 have "\<exists>es1. events w5 = events w @ es1"
    by (cases r2) (auto simp: w5_def w3_def frame_def emit_def push_def unsubscribe_fields)
  then obtain es1 where e1: "events w5 = events w @ es1" by blast
  from user_enter[OF fn] obtain es2 where e2: "events w6 = events w5 @ Enter (eff_fn w e) [] # es2"
    by (auto simp: fe)
  have "\<exists>es3. events w7 = events w6 @ es3" by (cases r6) (auto simp: w7_def emit_def)
  then obtain es3 where e3: "events w7 = events w6 @ es3" by blast
  show ?thesis by (simp add: w' pop_def e1 e2 e3)
qed

lemma recompute_enters:
  assumes "recompute (user \<Pi> n) c w = Some (r, w')"
  shows "Enter (comp_fn w c) [] \<in> set (drop (length (events w)) (events w'))"
proof -
  let ?call = "user \<Pi> n"
  let ?w1 = "unsubscribe (Comp c) w"
  note fr = steady_frame user_obeys[OF steady_frame]
  from assms obtain r2 w2 where cl: "call_if_function ?call (comp_cleanup ?w1 c) ?w1 = Some (r2, w2)"
    by (auto simp: recompute_def Let_def split: option.splits)
  define w5 where "w5 = push (Comp c) (w2\<lparr>comp_cleanup := (comp_cleanup w2)(c := VNull)\<rparr>)"
  from assms cl obtain r6 w6 where fn: "?call (comp_fn w5 c) [] w5 = Some (r6, w6)"
    by (auto simp: recompute_def Let_def w5_def split: option.splits)
  have fw: "\<exists>es3. events w' = events w6 @ es3"
    using assms cl fn
    by (auto simp: recompute_def Let_def w5_def pop_def emit_def
        split: option.splits outcome.splits if_splits)
  have f12: "frame ?w1 w2" by (rule cif_obeys[OF fr cl])
  then have fe: "comp_fn w5 c = comp_fn w c"
    by (simp add: w5_def frame_def push_def unsubscribe_fields)
  from f12 have "\<exists>es1. events w5 = events w @ es1"
    by (auto simp: w5_def frame_def push_def unsubscribe_fields)
  then obtain es1 where e1: "events w5 = events w @ es1" by blast
  from user_enter[OF fn] obtain es2 where e2: "events w6 = events w5 @ Enter (comp_fn w c) [] # es2"
    by (auto simp: fe)
  from fw obtain es3 where e3: "events w' = events w6 @ es3" by blast
  show ?thesis by (simp add: e1 e2 e3)
qed

lemma invoke_enters:
  assumes "invoke (user \<Pi> n) fn w = Some (r, w')"
  shows "Enter (fn_of w fn) [] \<in> set (drop (length (events w)) (events w'))"
proof (cases "(w, fn)" rule: fn_of.cases)
  case (1 v e)
  with assms show ?thesis by (simp add: runner_enters)
next
  case (2 v c)
  with assms show ?thesis by (simp add: recompute_enters)
next
  case (3 v f)
  with assms have "user \<Pi> n f [] w = Some (r, w')" by simp
  from user_enter[OF this] 3 show ?thesis by auto
qed

lemma notify_enters_all:
  "notify (user \<Pi> n) arr w = Some (r, w') \<Longrightarrow> fn \<in> set arr \<Longrightarrow>
   Enter (fn_of w fn) [] \<in> set (drop (length (events w)) (events w'))"
proof (induction arr arbitrary: w)
  case Nil
  then show ?case by simp
next
  case (Cons x arr)
  let ?call = "user \<Pi> n"
  note fr = steady_frame user_obeys[OF steady_frame]
  from Cons.prems(1) obtain r1 w1 where i: "invoke ?call x w = Some (r1, w1)"
    by (auto split: option.splits)
  define v where "v = (case r1 of Normal y \<Rightarrow> w1 | Exn err \<Rightarrow> emit (AsyncThrow err) w1)"
  from Cons.prems(1) i have n: "notify ?call arr v = Some (r, w')"
    by (cases r1) (auto simp: v_def)
  have f1: "frame w w1" by (rule invoke_obeys[OF fr i])
  have f2: "frame w1 v" by (cases r1) (auto simp: v_def frame_def emit_def)
  obtain es1 where e1: "events w1 = events w @ es1" using frame_events[OF f1] by blast
  obtain es2 where e2: "events v = events w1 @ es2" using frame_events[OF f2] by blast
  obtain es3 where e3: "events w' = events v @ es3"
    using frame_events[OF notify_obeys[OF fr n]] by blast
  show ?case
  proof (cases "fn = x")
    case True
    from invoke_enters[OF i] have "Enter (fn_of w x) [] \<in> set es1" by (simp add: e1)
    with True show ?thesis by (simp add: e1 e2 e3)
  next
    case False
    with Cons.prems(2) have "fn \<in> set arr" by simp
    from Cons.IH[OF n this] have "Enter (fn_of v fn) [] \<in> set es3" by (simp add: e3)
    moreover have "fn_of v fn = fn_of w fn"
      using fn_of_frame[OF f1] fn_of_frame[OF f2] by simp
    ultimately show ?thesis by (simp add: e1 e2 e3)
  qed
qed

text \<open>When every call of user code returns, so does every runner.\<close>

lemma runner_total:
  assumes "\<forall>f args u. call f args u \<noteq> None"
  shows "runner call e w \<noteq> None"
proof -
  let ?w1 = "unsubscribe (Eff e) w"
  from assms have "call_if_function call (eff_cleanup ?w1 e) ?w1 \<noteq> None"
    by (auto simp: call_if_function_def split: val.splits)
  then obtain r2 w2 where c: "call_if_function call (eff_cleanup ?w1 e) ?w1 = Some (r2, w2)" by auto
  define w3 where "w3 = (case r2 of Exn err \<Rightarrow> emit (ConsoleError [err]) w2 | Normal x \<Rightarrow> w2)"
  define w5 where "w5 = push (Eff e) (w3\<lparr>eff_cleanup := (eff_cleanup w3)(e := VNull)\<rparr>)"
  from assms obtain r6 w6 where f: "call (eff_fn w5 e) [] w5 = Some (r6, w6)" by fastforce
  from c f show ?thesis
    by (cases r6) (simp_all add: runner_def Let_def w3_def w5_def)
qed

lemma recompute_total:
  assumes "\<forall>f args u. call f args u \<noteq> None"
  shows "recompute call c w \<noteq> None"
proof -
  let ?w1 = "unsubscribe (Comp c) w"
  from assms have "call_if_function call (comp_cleanup ?w1 c) ?w1 \<noteq> None"
    by (auto simp: call_if_function_def split: val.splits)
  then obtain r2 w2 where cl: "call_if_function call (comp_cleanup ?w1 c) ?w1 = Some (r2, w2)" by auto
  define w5 where "w5 = push (Comp c) (w2\<lparr>comp_cleanup := (comp_cleanup w2)(c := VNull)\<rparr>)"
  from assms obtain r6 w6 where f: "call (comp_fn w5 c) [] w5 = Some (r6, w6)" by fastforce
  from cl f show ?thesis
    by (cases r6) (simp_all add: recompute_def Let_def w5_def)
qed

lemma invoke_total:
  assumes "\<forall>f args u. call f args u \<noteq> None"
  shows "invoke call fn w \<noteq> None"
  using assms
  by (cases "(call, fn, w)" rule: invoke.cases) (simp_all add: runner_total recompute_total)

lemma log_scenario:
  "logged log_set3 = [VNum 1, VNum 2] \<and>
   sig_set (user log_prog 1) 0 (VNum 1) log_start \<noteq> None \<and>
   sig_set (user log_prog 1) 0 (VNum 1) log_set1 \<noteq> None \<and>
   sig_set (user log_prog 1) 0 (VNum 2) log_set2 \<noteq> None"
  by code_simp

lemma fn_of_sig_value [simp]: "fn_of (w\<lparr>sig_value := x\<rparr>) fn = fn_of w fn"
  by (cases "(w, fn)" rule: fn_of.cases) simp_all

lemma fn_of_target [simp]: "fn_of (w\<lparr>target := x\<rparr>) fn = fn_of w fn"
  by (cases "(w, fn)" rule: fn_of.cases) simp_all

lemma mixed_scenario:
  "subs mixed_start (SigKey 0) = [RunnerFn (Eff 0), UserFn 1, UserFn 2] \<and>
   map_option fst (sig_set (user mixed_prog 1) 0 (VNum 1) mixed_start) = Some (Normal (VNum 1)) \<and>
   drop (length (events mixed_start)) (events mixed_set)
     = [Enter 0 [], Tracked (Eff 0) (SigKey 0), Logged (VNum 1),
        Enter 1 [], AsyncThrow (VStr ''subscriber failed''),
        Enter 2 [], Logged (VStr ''after'')] \<and>
   map_option fst (sig_set (user mixed_prog 1) 0 (VFun 3) mixed_set) = Some (Normal (VNum 2)) \<and>
   map_option (\<lambda>x. sig_value (snd x) 0) (sig_set (user mixed_prog 1) 0 (VFun 3) mixed_set)
     = Some (VNum 2)"
  by code_simp

lemma mixed_total: "user mixed_prog (Suc 0) f args u \<noteq> None"
  by (simp add: mixed_prog_def sig_get_def split: option.splits prod.splits)

text \<open>
  Claim C5, as amended. Let \<^verbatim>\<open>set\<close> have computed \<open>next\<close>: the value passed, or what
  the updater returned for the previous value. If \<open>next\<close> is the previous value,
  \<^verbatim>\<open>set\<close> returns \<open>next\<close> and does nothing but store it: no subscriber of any kind is
  called. Otherwise \<^verbatim>\<open>set\<close> stores \<open>next\<close> and notifies the subscribers the signal
  has at that moment; it returns exactly when the notification does, and it returns the
  value the signal holds then (which is \<open>next\<close> unless a subscriber has set the signal
  again: the counterexample below). A notification that returns has run every one of these
  subscribers, runner or plain function. The notification returns whenever each of
  the subscribers returns when called, also when some of them throw. In the first scenario
  the log is \<open>[1, 2]\<close>. In the second \<^verbatim>\<open>set(1)\<close> returns 1 after it has run the
  effect, the subscriber that throws, whose error is thrown again later, and the subscriber
  after it; then \<^verbatim>\<open>set((v) => v + 1)\<close> returns 2.
\<close>

theorem C5_set:
  assumes nx: "(case newVal of VFun f \<Rightarrow> user \<Pi> n f [sig_value w s] w | _ \<Rightarrow> Some (Normal newVal, w))
                 = Some (Normal next, w1)"
  shows "(next = sig_value w s \<longrightarrow>
            sig_set (user \<Pi> n) s newVal w
              = Some (Normal next, w1\<lparr>sig_value := (sig_value w1)(s := next)\<rparr>)) \<and>
         (next \<noteq> sig_value w s \<longrightarrow>
            sig_set (user \<Pi> n) s newVal w
              = (case notify (user \<Pi> n) (subs w1 (SigKey s))
                        (w1\<lparr>sig_value := (sig_value w1)(s := next)\<rparr>) of
                   None \<Rightarrow> None
                 | Some (r, w') \<Rightarrow> Some (Normal (sig_value w' s), w'))) \<and>
         (notify (user \<Pi> n) (subs w1 (SigKey s)) (w1\<lparr>sig_value := (sig_value w1)(s := next)\<rparr>)
            = Some (x, w') \<longrightarrow>
            x = Normal VUndef \<and>
            (\<forall>fn \<in> set (subs w1 (SigKey s)).
                Enter (fn_of w1 fn) [] \<in> set (drop (length (events w1)) (events w')))) \<and>
         ((\<forall>fn \<in> set (subs w1 (SigKey s)). \<forall>u. invoke (user \<Pi> n) fn u \<noteq> None) \<longrightarrow>
            (\<exists>w''. notify (user \<Pi> n) (subs w1 (SigKey s))
                      (w1\<lparr>sig_value := (sig_value w1)(s := next)\<rparr>) = Some (Normal VUndef, w''))) \<and>
         logged log_set3 = [VNum 1, VNum 2] \<and>
         subs mixed_start (SigKey 0) = [RunnerFn (Eff 0), UserFn 1, UserFn 2] \<and>
         map_option fst (sig_set (user mixed_prog 1) 0 (VNum 1) mixed_start) = Some (Normal (VNum 1)) \<and>
         drop (length (events mixed_start)) (events mixed_set)
           = [Enter 0 [], Tracked (Eff 0) (SigKey 0), Logged (VNum 1),
              Enter 1 [], AsyncThrow (VStr ''subscriber failed''),
              Enter 2 [], Logged (VStr ''after'')] \<and>
         map_option fst (sig_set (user mixed_prog 1) 0 (VFun 3) mixed_set) = Some (Normal (VNum 2))"
proof -
  let ?call = "user \<Pi> n"
  let ?w2 = "w1\<lparr>sig_value := (sig_value w1)(s := next)\<rparr>"
  let ?S = "subs w1 (SigKey s)"
  have a: "next = sig_value w s \<longrightarrow> sig_set ?call s newVal w = Some (Normal next, ?w2)"
    using nx by (simp add: sig_set_def Let_def)
  have b: "next \<noteq> sig_value w s \<longrightarrow>
           sig_set ?call s newVal w
              = (case notify ?call ?S ?w2 of
                   None \<Rightarrow> None
                 | Some (r, w') \<Rightarrow> Some (Normal (sig_value w' s), w'))"
    using nx by (simp add: sig_set_def Let_def)
  have c: "notify ?call ?S ?w2 = Some (x, w') \<longrightarrow>
            x = Normal VUndef \<and>
            (\<forall>fn \<in> set ?S. Enter (fn_of w1 fn) [] \<in> set (drop (length (events w1)) (events w')))"
  proof
    assume n: "notify ?call ?S ?w2 = Some (x, w')"
    have "\<forall>fn \<in> set ?S. Enter (fn_of w1 fn) [] \<in> set (drop (length (events w1)) (events w'))"
      using notify_enters_all[OF n] by simp
    with notify_result[OF n]
    show "x = Normal VUndef \<and>
            (\<forall>fn \<in> set ?S. Enter (fn_of w1 fn) [] \<in> set (drop (length (events w1)) (events w')))"
      by simp
  qed
  have d: "(\<forall>fn \<in> set ?S. \<forall>u. invoke ?call fn u \<noteq> None) \<longrightarrow>
            (\<exists>w''. notify ?call ?S ?w2 = Some (Normal VUndef, w''))"
    using notify_returns[of ?S ?call ?w2] by blast
  from log_scenario have l: "logged log_set3 = [VNum 1, VNum 2]" by simp
  from a b c d l mixed_scenario show ?thesis by blast
qed

text \<open>The theorem at \<^verbatim>\<open>set(1)\<close> in the second scenario, where every subscriber returns
  or throws, and at \<^verbatim>\<open>set(1)\<close> again.\<close>

theorem C5_set_witness:
  "VNum 1 \<noteq> sig_value mixed_start 0 \<and>
   subs mixed_start (SigKey 0) = [RunnerFn (Eff 0), UserFn 1, UserFn 2] \<and>
   eff_fn mixed_start 0 = 0 \<and>
   sig_set (user mixed_prog 1) 0 (VNum 1) mixed_start \<noteq> None \<and>
   Enter 0 [] \<in> set (drop (length (events mixed_start)) (events mixed_set)) \<and>
   AsyncThrow (VStr ''subscriber failed'') \<in> set (events mixed_set) \<and>
   Enter 2 [] \<in> set (drop (length (events mixed_start)) (events mixed_set)) \<and>
   sig_value mixed_set 0 = VNum 1 \<and>
   map_option (\<lambda>x. events (snd x)) (sig_set (user mixed_prog 1) 0 (VNum 1) mixed_set)
     = Some (events mixed_set)"
proof -
  let ?call = "user mixed_prog 1"
  let ?S = "subs mixed_start (SigKey 0)"
  let ?w2 = "mixed_start\<lparr>sig_value := (sig_value mixed_start)(0 := VNum 1)\<rparr>"
  have d: "VNum 1 \<noteq> sig_value mixed_start 0" by code_simp
  have s: "?S = [RunnerFn (Eff 0), UserFn 1, UserFn 2]" by code_simp
  have f: "eff_fn mixed_start 0 = 0" by code_simp
  have v1: "sig_value mixed_set 0 = VNum 1" by code_simp
  have at: "AsyncThrow (VStr ''subscriber failed'') \<in> set (events mixed_set)" by code_simp
  have nx: "(case VNum 1 of VFun f \<Rightarrow> ?call f [sig_value u 0] u | _ \<Rightarrow> Some (Normal (VNum 1), u))
              = Some (Normal (VNum 1), u)" for u
    by simp
  have ret: "\<forall>fn \<in> set ?S. \<forall>u. invoke ?call fn u \<noteq> None"
    using invoke_total[of ?call] mixed_total by simp
  note t = C5_set[OF nx, of mixed_start]
  from t[THEN conjunct2, THEN conjunct2, THEN conjunct2, THEN conjunct1, THEN mp, OF ret]
  obtain w'' where n: "notify ?call ?S ?w2 = Some (Normal VUndef, w'')" by blast
  from t[THEN conjunct2, THEN conjunct1, THEN mp, OF d] n
  have r: "sig_set ?call 0 (VNum 1) mixed_start = Some (Normal (sig_value w'' 0), w'')" by simp
  from t[of "Normal VUndef" w'', THEN conjunct2, THEN conjunct2, THEN conjunct1, THEN mp, OF n]
  have e: "\<forall>fn \<in> set ?S. Enter (fn_of mixed_start fn) [] \<in> set (drop (length (events mixed_start)) (events w''))"
    by simp
  from r have w'': "w'' = mixed_set" by (simp add: mixed_set_def)
  from r have ne: "sig_set ?call 0 (VNum 1) mixed_start \<noteq> None" by simp
  from e s f w'' have e0: "Enter 0 [] \<in> set (drop (length (events mixed_start)) (events mixed_set))"
    and e2: "Enter 2 [] \<in> set (drop (length (events mixed_start)) (events mixed_set))"
    by simp_all
  have c: "sig_set ?call 0 (VNum 1) mixed_set
             = Some (Normal (VNum 1), mixed_set\<lparr>sig_value := (sig_value mixed_set)(0 := VNum 1)\<rparr>)"
    using C5_set[OF nx, of mixed_set, THEN conjunct1] v1 by simp
  from d s f ne e0 at e2 v1 c show ?thesis by simp
qed

text \<open>
  Claim C5 as stated fails in what \<^verbatim>\<open>set\<close> returns (\<^verbatim>\<open>return value\<close> reads the
  variable after the notification): with the subscriber
  \<^verbatim>\<open>() => { if (get() === 1) set(2); }\<close> on a signal holding 0, \<^verbatim>\<open>set(1)\<close> computes
  \<open>next = 1\<close> and returns 2.
\<close>

theorem C5_counterexample:
  "sig_value clamp_start 0 = VNum 0 \<and>
   subs clamp_start (SigKey 0) = [UserFn 0] \<and>
   map_option fst (sig_set (user clamp_prog 2) 0 (VNum 1) clamp_start) = Some (Normal (VNum 2))"
  by code_simp

section \<open>State proxies\<close>

lemma prop_subs_target [simp]: "prop_subs (w\<lparr>target := t\<rparr>) p key = prop_subs w p key"
  by (simp add: prop_subs_def split: option.splits)

lemma fn_of_discard [simp]: "fn_of (w\<lparr>STATE_PROP_SIGNALS := x\<rparr>) fn = fn_of w fn"
  by (cases "(w, fn)" rule: fn_of.cases) simp_all










lemma unreserved_ensure:
  assumes "unreserved w" "key \<noteq> PStr ''subscribe''" "key \<noteq> PStr ''inspect''"
  shows "unreserved (snd (ensurePropSignalFor p key w))"
  using assms
  by (auto simp: unreserved_def ensurePropSignalFor_def Let_def split: option.splits if_splits)

lemma unreserved_track: "unreserved w \<Longrightarrow> unreserved (trackDependency a k w)"
  by (simp add: unreserved_def trackDependency_eq)

lemma unreserved_handler_get: "keeps_unreserved w (snd (handler_get p key w))"
  unfolding keeps_unreserved_def
proof
  assume u: "unreserved w"
  show "unreserved (snd (handler_get p key w))"
  proof (cases "key = PStr ''__isState'' \<or> key = PStr ''subscribe'' \<or> key = PStr ''inspect''")
    case True
    with u show ?thesis by (auto simp: handler_get_def)
  next
    case False
    obtain sig v where e: "ensurePropSignalFor p key w = (sig, v)"
      by (cases "ensurePropSignalFor p key w")
    from unreserved_ensure[OF u, of key p] False e have "unreserved v" by simp
    then have "unreserved (trackDependency x (PropSig sig) v)" for x
      by (rule unreserved_track)
    with u e False show ?thesis
      by (auto simp: handler_get_def Let_def split: option.splits pkey.splits)
  qed
qed

lemma steady_unreserved: "steady keeps_unreserved"
  unfolding steady_def
proof (intro conjI allI impI)
  fix w p key show "keeps_unreserved w (snd (handler_get p key w))" by (rule unreserved_handler_get)
next
  fix w s show "keeps_unreserved w (snd (sig_get s w))"
    by (auto simp: keeps_unreserved_def sig_get_def unreserved_track split: option.splits)
next
  fix w x show "keeps_unreserved w (unsubscribe x w)"
    by (auto simp: keeps_unreserved_def unreserved_def unsubscribe_eq split: option.splits)
next
  fix a b c assume "keeps_unreserved a b" "keeps_unreserved b c"
  then show "keeps_unreserved a c" by (auto simp: keeps_unreserved_def)
next
  fix w x w' assume a: "keeps_unreserved (push x w) w'"
  have "unreserved (push x w) = unreserved w" "unreserved (pop w') = unreserved w'"
    by (simp_all add: unreserved_def push_def pop_def)
  with a show "keeps_unreserved w (pop w')" by (simp add: keeps_unreserved_def)
next
  fix w p key
  show "keeps_unreserved w (w\<lparr>STATE_PROP_SIGNALS := (STATE_PROP_SIGNALS w)
          (p := map_option (\<lambda>m. m(key := None)) (STATE_PROP_SIGNALS w p))\<rparr>)"
    unfolding keeps_unreserved_def unreserved_def by (simp split: if_splits) fastforce
qed (simp_all add: keeps_unreserved_def emit_def unreserved_def)

lemma unreserved_init: "unreserved init"
  by (simp add: unreserved_def init_def)

lemma unreserved_user:
  "unreserved w \<Longrightarrow> user \<Pi> n f args w = Some (r, w') \<Longrightarrow> unreserved w'"
  using obeysD[OF user_obeys[OF steady_unreserved]] by (auto simp: keeps_unreserved_def)

text \<open>
  Claim C9, as amended. Take a state without a property signal for the reserved names
  (every state that can be reached is one: \<open>reachable_sound\<close> at the end), and one of
  the names \<^verbatim>\<open>subscribe\<close> and \<^verbatim>\<open>inspect\<close>. Reading the name returns the closure and
  leaves the state as it is, also while a runner is active, so no dependency is registered;
  \<^verbatim>\<open>inspect()\<close> hands the user a copy of the record and leaves the state as it is; the
  name has no subscribers, and a write to it stores the value on the record, calls no
  runner, and, when the value differs from the old one, calls the global callbacks like a
  write to any other property.
\<close>

theorem C9_reserved_names:
  assumes k: "key = PStr ''subscribe'' \<or> key = PStr ''inspect''" and u: "unreserved w"
  shows "handler_get p key w = (if key = PStr ''subscribe'' then SubscribeFn p else InspectFn p, w) \<and>
         run call (Inspect p c) w
           = (if p < next_state w then run call (c (target w p)) w else Some (Exn ReferenceError, w)) \<and>
         prop_subs w p key = [] \<and>
         handler_set call p key v w =
           (if v = target_get w p key
            then Some (Normal (VBool True), w\<lparr>target := (target w)(p := (target w p)(key \<mapsto> v))\<rparr>)
            else (case notifyGlobal call (globalSubs w p) [key_val key, target_get w p key, v]
                        (w\<lparr>target := (target w)(p := (target w p)(key \<mapsto> v))\<rparr>) of
                    None \<Rightarrow> None
                  | Some (r, w3) \<Rightarrow> Some (Normal (VBool True), w3)))"
proof -
  from k have g: "handler_get p key w = (if key = PStr ''subscribe'' then SubscribeFn p else InspectFn p, w)"
    by (auto simp: handler_get_def)
  have i: "run call (Inspect p c) w
           = (if p < next_state w then run call (c (target w p)) w else Some (Exn ReferenceError, w))"
    by (simp add: inspect_def)
  have s: "prop_subs w p key = []"
  proof (cases "STATE_PROP_SIGNALS w p")
    case None
    then show ?thesis by (simp add: prop_subs_def)
  next
    case (Some m)
    with u have "m (PStr ''subscribe'') = None \<and> m (PStr ''inspect'') = None"
      unfolding unreserved_def by blast
    with k have "m key = None" by auto
    with Some show ?thesis by (simp add: prop_subs_def)
  qed
  have "handler_set call p key v w =
           (if v = target_get w p key
            then Some (Normal (VBool True), w\<lparr>target := (target w)(p := (target w p)(key \<mapsto> v))\<rparr>)
            else (case notifyGlobal call (globalSubs w p) [key_val key, target_get w p key, v]
                        (w\<lparr>target := (target w)(p := (target w p)(key \<mapsto> v))\<rparr>) of
                    None \<Rightarrow> None
                  | Some (r, w3) \<Rightarrow> Some (Normal (VBool True), w3)))"
    using s by (auto simp: handler_set_def Let_def split: option.splits)
  with g i s show ?thesis by simp
qed

lemma createEffect_runner:
  "createEffect call (VFun f) w = Some (r, w') \<Longrightarrow>
   \<exists>r'. runner call (fst (new_effect f w)) (snd (new_effect f w)) = Some (r', w')"
  by (auto simp: createEffect_def split: prod.splits option.splits)

lemma unreserved_state_start: "unreserved state_start"
proof -
  let ?w0 = "state_subscribe 0 1 (snd (state ((\<lambda>k. None)(PStr ''x'' \<mapsto> VNum 0)) init))"
  have u: "unreserved (snd (new_effect 0 ?w0))"
    by (simp add: unreserved_def state_subscribe_def state_def new_effect_def init_def Let_def)
  have ne: "createEffect (user state_prog 1) (VFun 0) ?w0 \<noteq> None" by code_simp
  then obtain r where "createEffect (user state_prog 1) (VFun 0) ?w0 = Some (r, state_start)"
    unfolding state_start_def by (metis option.exhaust_sel prod.collapse)
  from createEffect_runner[OF this] obtain r' where
    "runner (user state_prog 1) (fst (new_effect 0 ?w0)) (snd (new_effect 0 ?w0)) = Some (r', state_start)"
    by blast
  from runner_obeys[OF steady_unreserved user_obeys[OF steady_unreserved] this] u
  show ?thesis unfolding keeps_unreserved_def by blast
qed


text \<open>The theorem in the scenario: \<^verbatim>\<open>inspect\<close> read while the effect's runner is on the
  stack, and \<^verbatim>\<open>state.subscribe = 5\<close>.\<close>

theorem C9_reserved_names_witness:
  "active (push (Eff 0) state_start) = Some (Eff 0) \<and>
   handler_get 0 (PStr ''inspect'') (push (Eff 0) state_start) = (InspectFn 0, push (Eff 0) state_start) \<and>
   prop_subs state_start 0 (PStr ''subscribe'') = [] \<and>
   map_option (\<lambda>x. events (snd x))
     (handler_set (user state_prog 1) 0 (PStr ''subscribe'') (VNum 5) state_start)
     = Some (events state_start @ [Enter 1 [VStr ''subscribe'', VUndef, VNum 5]])"
proof -
  have u: "unreserved state_start" by (rule unreserved_state_start)
  then have u': "unreserved (push (Eff 0) state_start)" by (simp add: unreserved_def push_def)
  have a: "active (push (Eff 0) state_start) = Some (Eff 0)" by (simp add: active_def push_def)
  from C9_reserved_names[of "PStr ''inspect''" "push (Eff 0) state_start" 0, OF _ u']
  have b: "handler_get 0 (PStr ''inspect'') (push (Eff 0) state_start)
             = (InspectFn 0, push (Eff 0) state_start)" by simp
  let ?w1 = "state_start\<lparr>target := (target state_start)
                 (0 := (target state_start 0)(PStr ''subscribe'' \<mapsto> VNum 5))\<rparr>"
  have t: "target_get state_start 0 (PStr ''subscribe'') = VUndef" by code_simp
  have g: "globalSubs state_start 0 = [1]" by code_simp
  note c = C9_reserved_names[of "PStr ''subscribe''" state_start 0 "user state_prog 1" _ "VNum 5", OF _ u]
  from c have s: "prop_subs state_start 0 (PStr ''subscribe'') = []" by simp
  have n: "map_option (\<lambda>x. events (snd x))
             (notifyGlobal (user state_prog 1) [1] [VStr ''subscribe'', VUndef, VNum 5] ?w1)
           = Some (events state_start @ [Enter 1 [VStr ''subscribe'', VUndef, VNum 5]])"
    by code_simp
  from c t g have "handler_set (user state_prog 1) 0 (PStr ''subscribe'') (VNum 5) state_start
      = (case notifyGlobal (user state_prog 1) [1] [VStr ''subscribe'', VUndef, VNum 5] ?w1 of
           None \<Rightarrow> None | Some (r, w3) \<Rightarrow> Some (Normal (VBool True), w3))"
    by simp
  with n have "map_option (\<lambda>x. events (snd x))
     (handler_set (user state_prog 1) 0 (PStr ''subscribe'') (VNum 5) state_start)
     = Some (events state_start @ [Enter 1 [VStr ''subscribe'', VUndef, VNum 5]])"
    by (auto split: option.splits)
  with a b s show ?thesis by simp
qed

text \<open>
  Claim C9 as stated fails for writes: the \<^verbatim>\<open>set\<close> trap does not look at the name. In
  the scenario \<^verbatim>\<open>state.subscribe = 5\<close> calls the global callback with
  \<^verbatim>\<open>('subscribe', undefined, 5)\<close> and stores 5 on the record.
\<close>

theorem C9_counterexample:
  "globalSubs state_start 0 = [1] \<and>
   handler_set (user state_prog 1) 0 (PStr ''subscribe'') (VNum 5) state_start \<noteq> None \<and>
   drop (length (events state_start)) (events state_reserved)
     = [Enter 1 [VStr ''subscribe'', VUndef, VNum 5]] \<and>
   target state_reserved 0 (PStr ''subscribe'') = Some (VNum 5)"
  by code_simp

section \<open>Disposal\<close>

text \<open>The disposer never throws: an error of the cleanup goes to \<^verbatim>\<open>console.error\<close>.\<close>

lemma dispose_returns_normally:
  "dispose call e w = Some (r, w') \<Longrightarrow> r = Normal VUndef"
  by (auto simp: dispose_def Let_def split: option.splits)

text \<open>
  Claim C6 fails on the code, against the comment of \<^verbatim>\<open>createEffect\<close> ("returns a
  disposer function to stop the effect and clean up subscriptions"). The disposer only
  deletes the subscriptions recorded so far; nothing marks the runner as disposed. In the
  scenario the effect calls its disposer when it reads 1 and then reads the signal again:
  the runner is still on the stack, so the read subscribes it again. After \<^verbatim>\<open>setS(1)\<close>,
  in which the disposer was called, the signal lists the runner, and \<^verbatim>\<open>setS(2)\<close> runs
  \<^verbatim>\<open>fn\<close> a third time.
\<close>

theorem C6_runs_after_dispose:
  "createEffect (user zombie_prog 1) (VFun 0) (snd (createSignal (VNum 0) init)) \<noteq> None \<and>
   logged zombie_start = [VNum 0] \<and>
   sig_set (user zombie_prog 1) 0 (VNum 1) zombie_start \<noteq> None \<and>
   logged zombie_disposed = [VNum 0, VNum 1] \<and>
   subs zombie_disposed (SigKey 0) = [RunnerFn (Eff 0)] \<and>
   sig_set (user zombie_prog 1) 0 (VNum 2) zombie_disposed \<noteq> None \<and>
   invocations 0 zombie_disposed = 2 \<and>
   invocations 0 zombie_after = 3 \<and>
   logged zombie_after = [VNum 0, VNum 1, VNum 2]"
  by code_simp

section \<open>Every state that can be reached is sound\<close>

lemma sound_step:
  assumes "tracing w w'" "keeps_unreserved w w'" "frame w w'" "sound w"
  shows "sound w'"
  using assms by (simp add: sound_def tracing_def keeps_unreserved_def frame_def)

lemma sound_run:
  assumes "sound w" "run (user \<Pi> n) q w = Some (r, w')"
  shows "sound w'"
  using run_obeys[OF steady_tracing user_obeys[OF steady_tracing] assms(2)]
    run_obeys[OF steady_unreserved user_obeys[OF steady_unreserved] assms(2)]
    run_obeys[OF steady_frame user_obeys[OF steady_frame] assms(2)] assms(1)
  by (rule sound_step)

lemma sound_runner:
  assumes "sound w" "runner (user \<Pi> n) e w = Some (r, w')"
  shows "sound w'"
  using runner_obeys[OF steady_tracing user_obeys[OF steady_tracing] assms(2)]
    runner_obeys[OF steady_unreserved user_obeys[OF steady_unreserved] assms(2)]
    runner_obeys[OF steady_frame user_obeys[OF steady_frame] assms(2)] assms(1)
  by (rule sound_step)

lemma sound_recompute:
  assumes "sound w" "recompute (user \<Pi> n) c w = Some (r, w')"
  shows "sound w'"
  using recompute_obeys[OF steady_tracing user_obeys[OF steady_tracing] assms(2)]
    recompute_obeys[OF steady_unreserved user_obeys[OF steady_unreserved] assms(2)]
    recompute_obeys[OF steady_frame user_obeys[OF steady_frame] assms(2)] assms(1)
  by (rule sound_step)

lemma sound_runners:
  assumes s: "sound w"
    and r: "\<And>r k. (RunnerFn r \<in> set (subs w' k)) = (RunnerFn r \<in> set (subs w k))"
    and e: "events w' = events w" "cleared w' = cleared w" "EFFECT_DEPS w' = EFFECT_DEPS w"
      "EFFECT_STACK w' = EFFECT_STACK w"
    and a: "allocated w'" and u: "unreserved w'"
  shows "sound w'"
proof -
  from s have c: "consistent w" and t: "traced w" and st: "EFFECT_STACK w = []"
    by (simp_all add: sound_def)
  from c have "consistent w'" by (simp add: consistent_def deps_of_def r e)
  moreover from t have "traced w'" by (simp add: traced_def r e)
  ultimately show ?thesis using st a u by (simp add: sound_def e)
qed

lemma sound_init: "sound init"
  by (simp add: sound_def consistent_def allocated_def traced_def unreserved_def deps_of_def init_def)

lemma sound_createSignal:
  assumes "sound w"
  shows "sound (snd (createSignal v w))"
proof (rule sound_runners[OF assms])
  from assms have "subs w (SigKey (next_signal w)) = []" by (simp add: sound_def allocated_def)
  then have eq: "(subs w)(SigKey (next_signal w) := []) = subs w" by (simp add: fun_upd_idem)
  then show "(RunnerFn r \<in> set (subs (snd (createSignal v w)) k)) = (RunnerFn r \<in> set (subs w k))"
    for r k by (simp add: createSignal_def Let_def)
  from assms eq show "allocated (snd (createSignal v w))"
    by (simp add: sound_def createSignal_def Let_def allocated_def)
  from assms show "unreserved (snd (createSignal v w))"
    by (simp add: sound_def createSignal_def Let_def unreserved_def)
qed (simp_all add: createSignal_def Let_def)

lemma sound_subscribe:
  assumes "sound w" "s < next_signal w"
  shows "sound (subscribe s fn w)"
proof (rule sound_runners[OF assms(1)])
  show "(RunnerFn r \<in> set (subs (subscribe s fn w) k)) = (RunnerFn r \<in> set (subs w k))" for r k
    by (cases fn) (auto simp: subscribe_def set_add_def)
  from assms show "allocated (subscribe s fn w)"
    by (cases fn) (auto simp: sound_def subscribe_def allocated_def set_add_def)
  from assms show "unreserved (subscribe s fn w)"
    by (cases fn) (simp_all add: sound_def subscribe_def unreserved_def)
qed (cases fn; simp add: subscribe_def)+

lemma sound_unsubscribe_fn:
  assumes "sound w"
  shows "sound (unsubscribe_fn s fn w)"
proof (rule sound_runners[OF assms])
  show "(RunnerFn r \<in> set (subs (unsubscribe_fn s fn w) k)) = (RunnerFn r \<in> set (subs w k))" for r k
    by (cases fn) (auto simp: unsubscribe_fn_def)
  from assms show "allocated (unsubscribe_fn s fn w)"
    by (cases fn) (auto simp: sound_def unsubscribe_fn_def allocated_def)
  from assms show "unreserved (unsubscribe_fn s fn w)"
    by (cases fn) (simp_all add: sound_def unsubscribe_fn_def unreserved_def)
qed (cases fn; simp add: unsubscribe_fn_def)+

lemma sound_new_effect:
  assumes "sound w"
  shows "sound (snd (new_effect f w))"
proof (rule sound_runners[OF assms])
qed (insert assms, simp_all add: sound_def new_effect_def Let_def allocated_def unreserved_def)

lemma sound_new_computed:
  assumes "sound w"
  shows "sound (snd (new_computed f w))"
proof (rule sound_runners[OF assms])
qed (insert assms, simp_all add: sound_def new_computed_def Let_def allocated_def unreserved_def)

lemma sound_state:
  assumes "sound w"
  shows "sound (snd (state initial w))"
proof (rule sound_runners[OF assms])
qed (insert assms, auto simp: sound_def state_def Let_def allocated_def unreserved_def)

lemma sound_state_subscribe:
  assumes "sound w"
  shows "sound (state_subscribe p f w)"
proof (rule sound_runners[OF assms])
qed (insert assms, simp_all add: sound_def state_subscribe_def allocated_def unreserved_def)

lemma sound_createEffect:
  assumes "sound w" "createEffect (user \<Pi> n) fn w = Some (r, w')"
  shows "sound w'"
proof (cases fn)
  case (VFun f)
  with assms(2) obtain r' where
    "runner (user \<Pi> n) (fst (new_effect f w)) (snd (new_effect f w)) = Some (r', w')"
    by (auto simp: createEffect_def split: prod.splits option.splits)
  then show ?thesis by (rule sound_runner[OF sound_new_effect[OF assms(1)]])
qed (insert assms, auto simp: createEffect_def)

lemma sound_createComputed:
  assumes "sound w" "createComputed (user \<Pi> n) fn w = Some (r, w')"
  shows "sound w'"
proof (cases fn)
  case (VFun f)
  with assms(2) obtain r' where
    "recompute (user \<Pi> n) (fst (new_computed f w)) (snd (new_computed f w)) = Some (r', w')"
    by (auto simp: createComputed_def split: prod.splits option.splits)
  then show ?thesis by (rule sound_recompute[OF sound_new_computed[OF assms(1)]])
qed (insert assms, auto simp: createComputed_def)

lemma reachable_sound: "reachable \<Pi> w \<Longrightarrow> sound w"
proof (induction rule: reachable.induct)
  case at_init
  show ?case by (rule sound_init)
next
  case (at_createSignal w v)
  then show ?case by (simp add: sound_createSignal)
next
  case (at_subscribe w s fn)
  then show ?case by (simp add: sound_subscribe)
next
  case (at_unsubscribe w s fn)
  then show ?case by (simp add: sound_unsubscribe_fn)
next
  case (at_createEffect w n fn r w')
  then show ?case by (blast intro: sound_createEffect)
next
  case (at_createComputed w n fn r w')
  then show ?case by (blast intro: sound_createComputed)
next
  case (at_state w initial)
  then show ?case by (simp add: sound_state)
next
  case (at_state_subscribe w p f)
  then show ?case by (simp add: sound_state_subscribe)
next
  case (at_run w n script r w')
  then show ?case by (blast intro: sound_run)
qed

end
